theory Spec2Isabelle
  imports Complex_Main "HOL-Library.Log_Nat"
begin

section \<open>ECMAScript numbers\<close>

text \<open>
  Every arithmetic value of \<^verbatim>\<open>script.js\<close> is an ECMAScript Number, an IEEE 754
  binary64 value. A finite non-zero value is kept as the rational it denotes; the two
  zeros, the two infinities and NaN are separate constructors. \<open>Fin 0\<close> is \<open>+0\<close>.
  The arithmetic operations compute the exact rational result and round it to the nearest
  binary64 value, ties to even, as the language standard prescribes.
\<close>

datatype number = Fin rat | NegZero | PosInf | NegInf | NaN

text \<open>Round half to even, to an integer.\<close>

definition rne :: "rat \<Rightarrow> int" where
  "rne x = (let f = \<lfloor>x\<rfloor>; d = x - of_int f in
     if d < 1 / 2 then f
     else if 1 / 2 < d then f + 1
     else if even f then f else f + 1)"

text \<open>The binary exponent \<open>\<lfloor>log\<^sub>2 q\<rfloor>\<close> of a positive rational.\<close>

definition ilog2 :: "rat \<Rightarrow> int" where
  "ilog2 q = (if 1 \<le> q then int (floorlog 2 (nat \<lfloor>q\<rfloor>)) - 1
              else - int (floorlog 2 (nat (\<lceil>1 / q\<rceil> - 1))))"

text \<open>
  The exponent of the binade of a positive rational, not below the least normal exponent
  \<open>-1022\<close>, and the unit in the last place there: 53 significant bits, so that the
  subnormal numbers lie on the grid of \<open>2 powi -1074\<close>.
\<close>

definition bexp :: "rat \<Rightarrow> int" where
  "bexp a = max (ilog2 a) (- 1022)"

definition ulp :: "rat \<Rightarrow> rat" where
  "ulp a = 2 powi (bexp a - 52)"

text \<open>
  The multiple of the unit in the last place that is nearest to a positive rational, ties
  to the even multiple.
\<close>

definition nearest :: "rat \<Rightarrow> rat" where
  "nearest a = of_int (rne (a / ulp a)) * ulp a"

text \<open>
  Rounding to binary64: a magnitude that rounds to \<open>2 powi 1024\<close> or more overflows to an
  infinity, one that rounds to \<open>0\<close> underflows to the zero of its sign.
\<close>

definition round64 :: "rat \<Rightarrow> number" where
  "round64 q =
     (if q = 0 then Fin 0
      else let v = nearest \<bar>q\<bar> in
        if 2 powi 1024 \<le> v then (if q < 0 then NegInf else PosInf)
        else if v = 0 then (if q < 0 then NegZero else Fin 0)
        else Fin (if q < 0 then - v else v))"

definition isNeg :: "number \<Rightarrow> bool" where
  "isNeg x = (case x of Fin q \<Rightarrow> q < 0 | NegZero \<Rightarrow> True | NegInf \<Rightarrow> True | _ \<Rightarrow> False)"

definition isZero :: "number \<Rightarrow> bool" where
  "isZero x = (x = Fin 0 \<or> x = NegZero)"

definition isInf :: "number \<Rightarrow> bool" where
  "isInf x = (x = PosInf \<or> x = NegInf)"


text \<open>The rational denoted by a finite number.\<close>

fun val :: "number \<Rightarrow> rat" where
  "val (Fin q) = q"
| "val _ = 0"

definition signedZero :: "bool \<Rightarrow> number" where
  "signedZero neg = (if neg then NegZero else Fin 0)"

definition signedInf :: "bool \<Rightarrow> number" where
  "signedInf neg = (if neg then NegInf else PosInf)"

text \<open>Unary minus.\<close>

fun fneg :: "number \<Rightarrow> number" where
  "fneg (Fin q) = (if q = 0 then NegZero else Fin (- q))"
| "fneg NegZero = Fin 0"
| "fneg PosInf = NegInf"
| "fneg NegInf = PosInf"
| "fneg NaN = NaN"

text \<open>\<^verbatim>\<open>x + y\<close> on Numbers.\<close>

definition fadd :: "number \<Rightarrow> number \<Rightarrow> number" where
  "fadd x y =
     (if x = NaN \<or> y = NaN then NaN
      else if isInf x then (if isInf y \<and> y \<noteq> x then NaN else x)
      else if isInf y then y
      else if x = NegZero \<and> y = NegZero then NegZero
      else round64 (val x + val y))"

text \<open>\<^verbatim>\<open>x - y\<close> is \<^verbatim>\<open>x + (-y)\<close>.\<close>

definition fsub :: "number \<Rightarrow> number \<Rightarrow> number" where
  "fsub x y = fadd x (fneg y)"

text \<open>\<^verbatim>\<open>x * y\<close> on Numbers.\<close>

definition fmul :: "number \<Rightarrow> number \<Rightarrow> number" where
  "fmul x y =
     (if x = NaN \<or> y = NaN then NaN
      else if isInf x \<or> isInf y then
        (if isZero x \<or> isZero y then NaN else signedInf (isNeg x \<noteq> isNeg y))
      else if isZero x \<or> isZero y then signedZero (isNeg x \<noteq> isNeg y)
      else round64 (val x * val y))"

text \<open>\<^verbatim>\<open>x / y\<close> on Numbers: a division by zero is an infinity or NaN, never an error.\<close>

definition fdiv :: "number \<Rightarrow> number \<Rightarrow> number" where
  "fdiv x y =
     (if x = NaN \<or> y = NaN then NaN
      else if isInf x then (if isInf y then NaN else signedInf (isNeg x \<noteq> isNeg y))
      else if isInf y then signedZero (isNeg x \<noteq> isNeg y)
      else if isZero y then (if isZero x then NaN else signedInf (isNeg x \<noteq> isNeg y))
      else if isZero x then signedZero (isNeg x \<noteq> isNeg y)
      else round64 (val x / val y))"

text \<open>\<^verbatim>\<open>Math.floor\<close>.\<close>

fun floorNum :: "number \<Rightarrow> number" where
  "floorNum (Fin q) = Fin (of_int \<lfloor>q\<rfloor>)"
| "floorNum x = x"

text \<open>
  The relational operators: every comparison with NaN is false, and the two zeros are
  equal.
\<close>

fun lt :: "number \<Rightarrow> number \<Rightarrow> bool" where
  "lt NaN _ = False"
| "lt _ NaN = False"
| "lt PosInf _ = False"
| "lt _ NegInf = False"
| "lt _ PosInf = True"
| "lt NegInf _ = True"
| "lt x y = (val x < val y)"

definition ge :: "number \<Rightarrow> number \<Rightarrow> bool" where
  "ge x y = (x \<noteq> NaN \<and> y \<noteq> NaN \<and> \<not> lt x y)"

text \<open>\<^verbatim>\<open>x <= y\<close>.\<close>

definition le :: "number \<Rightarrow> number \<Rightarrow> bool" where
  "le x y = (x \<noteq> NaN \<and> y \<noteq> NaN \<and> \<not> lt y x)"

text \<open>The binary64 values: the rationals that rounding leaves as they are.\<close>

definition binary64 :: "rat \<Rightarrow> bool" where
  "binary64 v = (round64 v = Fin v)"

text \<open>
  An array index or length, as a Number. An array has fewer than \<open>2\<^sup>3\<^sup>2\<close> elements, so
  the Number is the integer itself.
\<close>

definition ofNat :: "nat \<Rightarrow> number" where
  "ofNat n = Fin (of_nat n)"


section \<open>Strings\<close>

text \<open>
  A string is a list of code units, here 8-bit ones. The white space and line terminator
  code units below \<open>0x100\<close> are TAB, LF, VT, FF, CR, SP and NBSP.
\<close>

definition isWhiteSpace :: "char \<Rightarrow> bool" where
  "isWhiteSpace c = (c \<in> set [CHR 0x09, CHR 0x0A, CHR 0x0B, CHR 0x0C, CHR 0x0D, CHR 0x20, CHR 0xA0])"

definition trimStart :: "string \<Rightarrow> string" where
  "trimStart s = dropWhile isWhiteSpace s"

text \<open>\<^verbatim>\<open>String.prototype.trim\<close>.\<close>

definition trim :: "string \<Rightarrow> string" where
  "trim s = rev (dropWhile isWhiteSpace (rev (dropWhile isWhiteSpace s)))"

text \<open>
  \<^verbatim>\<open>String.prototype.split\<close> with a one-character separator: the substrings between
  the separators, one more than there are separators.
\<close>

fun js_split :: "char \<Rightarrow> string \<Rightarrow> string list" where
  "js_split sep [] = [[]]"
| "js_split sep (c # cs) =
     (if c = sep then [] # js_split sep cs
      else (case js_split sep cs of
              [] \<Rightarrow> [[c]]
            | w # ws \<Rightarrow> (c # w) # ws))"

text \<open>\<^verbatim>\<open>Array.prototype.slice(a, b)\<close> for \<open>0 \<le> a\<close> and \<open>0 \<le> b\<close>.\<close>

definition js_slice :: "nat \<Rightarrow> nat \<Rightarrow> 'a list \<Rightarrow> 'a list" where
  "js_slice a b xs = take (b - a) (drop a xs)"

definition isDigit :: "char \<Rightarrow> bool" where
  "isDigit c = (48 \<le> (of_char c :: nat) \<and> (of_char c :: nat) \<le> 57)"

definition digitsVal :: "string \<Rightarrow> nat" where
  "digitsVal ds = foldl (\<lambda>a c. 10 * a + (of_char c - 48)) 0 ds"

text \<open>
  The value of the exponent part at the start of a string, \<open>0\<close> when there is none: an
  \<^verbatim>\<open>e\<close> or \<^verbatim>\<open>E\<close>, an optional sign and at least one digit.
\<close>

definition exponentPart :: "string \<Rightarrow> int" where
  "exponentPart r =
     (case r of
        [] \<Rightarrow> 0
      | c # r' \<Rightarrow>
          if c = CHR ''e'' \<or> c = CHR ''E'' then
            (case r' of
               [] \<Rightarrow> 0
             | g # r'' \<Rightarrow>
                 if g = CHR ''+'' \<or> g = CHR ''-'' then
                   (let ds = takeWhile isDigit r'' in
                    if ds = [] then 0
                    else if g = CHR ''-'' then - int (digitsVal ds) else int (digitsVal ds))
                 else
                   (let ds = takeWhile isDigit r' in
                    if ds = [] then 0 else int (digitsVal ds)))
          else 0)"

text \<open>
  The unsigned part of \<^verbatim>\<open>parseFloat\<close>: the longest prefix that is
  \<^verbatim>\<open>Infinity\<close>, or digits with an optional fraction and exponent, or a fraction
  with at least one digit; NaN when there is no such prefix.
\<close>

definition parseUnsigned :: "bool \<Rightarrow> string \<Rightarrow> number" where
  "parseUnsigned neg u =
     (if take 8 u = ''Infinity'' then signedInf neg
      else
        let ip = takeWhile isDigit u;
            r1 = dropWhile isDigit u;
            (fp, r2) = (case r1 of
                          [] \<Rightarrow> ([], r1)
                        | c # r \<Rightarrow> if c = CHR ''.''
                                   then (takeWhile isDigit r, dropWhile isDigit r)
                                   else ([], r1))
        in if ip = [] \<and> fp = [] then NaN
           else
             let mv = (of_nat (digitsVal ip) + of_nat (digitsVal fp) / 10 ^ length fp)
                        * 10 powi exponentPart r2
             in if mv = 0 then signedZero neg
                else round64 (if neg then - mv else mv))"

text \<open>
  \<^verbatim>\<open>parseFloat\<close>: leading white space is skipped, an optional sign is read, and
  whatever follows the numeric prefix is ignored.
\<close>

definition parseFloat :: "string \<Rightarrow> number" where
  "parseFloat s =
     (case trimStart s of
        [] \<Rightarrow> NaN
      | c # u \<Rightarrow>
          if c = CHR ''-'' then parseUnsigned True u
          else if c = CHR ''+'' then parseUnsigned False u
          else parseUnsigned False (c # u))"

section \<open>The chart's data\<close>

text \<open>
  A numeric field of a record is a Number, or \<^verbatim>\<open>undefined\<close> when the line had
  too few fields. \<^verbatim>\<open>ToNumber(undefined)\<close> is NaN.
\<close>

datatype jsval = Undefined | Num number

fun toNumber :: "jsval \<Rightarrow> number" where
  "toNumber Undefined = NaN"
| "toNumber (Num n) = n"

record ohlc =
  date :: string
  openPrice :: jsval
  high :: jsval
  low :: jsval
  close :: jsval

record closingPrice =
  cp_date :: string
  cp_close :: jsval

record maPoint =
  ma_date :: string
  avg :: number

text \<open>
  The fields of a \<^verbatim>\<open>StockChart\<close> that the computations read: the padding, the
  three arrays, and the pixel width and height of the stock canvas.
\<close>

record chart =
  padding :: number
  fullData :: "ohlc list"
  closingPrices :: "closingPrice list"
  movingAverage :: "maPoint list"
  canvasWidth :: number
  canvasHeight :: number

text \<open>The state the constructor leaves, for a canvas of the given size.\<close>

definition newChart :: "number \<Rightarrow> number \<Rightarrow> chart" where
  "newChart w h =
     \<lparr>padding = Fin 60, fullData = [], closingPrices = [], movingAverage = [],
      canvasWidth = w, canvasHeight = h\<rparr>"

text \<open>An element of a destructured array: \<^verbatim>\<open>undefined\<close> beyond its end.\<close>

definition element :: "nat \<Rightarrow> number list \<Rightarrow> jsval" where
  "element k xs = (if k < length xs then Num (xs ! k) else Undefined)"

text \<open>
  One line of the file: field \<open>0\<close> is kept as the date, the others go through
  \<^verbatim>\<open>parseFloat\<close>, and the first five are bound to
  \<^verbatim>\<open>[date, open, high, low, close]\<close>. (\<open>js_split\<close> never returns the empty
  array, so the first case is never taken.)
\<close>

definition parseLine :: "string \<Rightarrow> ohlc" where
  "parseLine line =
     (case js_split CHR '','' line of
        [] \<Rightarrow> \<lparr>date = [], openPrice = Undefined, high = Undefined, low = Undefined,
               close = Undefined\<rparr>
      | f # rest \<Rightarrow>
          let nums = map parseFloat rest
          in \<lparr>date = f, openPrice = element 0 nums, high = element 1 nums,
               low = element 2 nums, close = element 3 nums\<rparr>)"

definition pushLine :: "chart \<Rightarrow> string \<Rightarrow> chart" where
  "pushLine s line =
     (let r = parseLine line
      in s\<lparr>fullData := fullData s @ [r],
            closingPrices := closingPrices s @ [\<lparr>cp_date = date r, cp_close = close r\<rparr>]\<rparr>)"

text \<open>\<^verbatim>\<open>processCSVData\<close>: the header line is dropped, every other line is pushed.\<close>

definition processCSVData :: "chart \<Rightarrow> string \<Rightarrow> chart" where
  "processCSVData s csvData = foldl pushLine s (drop 1 (js_split CHR 0x0A (trim csvData)))"

section \<open>The moving average\<close>

definition period :: nat where
  "period = 20"

text \<open>\<^verbatim>\<open>acc + val.close\<close>, with \<^verbatim>\<open>acc\<close> a Number.\<close>

definition addClose :: "number \<Rightarrow> closingPrice \<Rightarrow> number" where
  "addClose acc v = fadd acc (toNumber (cp_close v))"

definition maStep :: "closingPrice list \<Rightarrow> maPoint list \<Rightarrow> nat \<Rightarrow> maPoint list" where
  "maStep cps acc i =
     (if period - 1 \<le> i then
        let sum = foldl addClose (Fin 0) (js_slice (i - (period - 1)) (i + 1) cps);
            a = fdiv sum (ofNat period)
        in acc @ [\<lparr>ma_date = cp_date (cps ! i), avg = a\<rparr>]
      else acc)"

text \<open>\<^verbatim>\<open>calculateMovingAverage\<close>: the loop over \<open>i = 0, \<dots>, length - 1\<close>.\<close>

definition calculateMovingAverage :: "chart \<Rightarrow> chart" where
  "calculateMovingAverage s =
     s\<lparr>movingAverage :=
         foldl (maStep (closingPrices s)) (movingAverage s) [0..<length (closingPrices s)]\<rparr>"


text \<open>
  The record \<^verbatim>\<open>{ date, close }\<close> that \<^verbatim>\<open>processCSVData\<close> pushes beside a
  full record.
\<close>

definition closingOf :: "ohlc \<Rightarrow> closingPrice" where
  "closingOf r = \<lparr>cp_date = date r, cp_close = close r\<rparr>"

text \<open>
  The arithmetic mean of a list of prices, as the specification words it: their sum
  divided by their number, in exact arithmetic.
\<close>

definition arithmeticMean :: "rat list \<Rightarrow> rat" where
  "arithmeticMean cs = sum_list cs / of_nat (length cs)"

section \<open>Scales and drawing\<close>

text \<open>\<^verbatim>\<open>Math.max(...xs)\<close> and \<^verbatim>\<open>Math.min(...xs)\<close>.\<close>

definition mathMax :: "number list \<Rightarrow> number" where
  "mathMax xs =
     (if NaN \<in> set xs then NaN
      else foldl (\<lambda>highest n. if (n = Fin 0 \<and> highest = NegZero) \<or> lt highest n
                              then n else highest) NegInf xs)"

definition mathMin :: "number list \<Rightarrow> number" where
  "mathMin xs =
     (if NaN \<in> set xs then NaN
      else foldl (\<lambda>lowest n. if (n = NegZero \<and> lowest = Fin 0) \<or> lt n lowest
                             then n else lowest) PosInf xs)"

text \<open>The local constants of \<^verbatim>\<open>plotChart\<close>.\<close>

definition contentWidth :: "chart \<Rightarrow> number" where
  "contentWidth s = fsub (canvasWidth s) (fmul (Fin 2) (padding s))"

definition contentHeight :: "chart \<Rightarrow> number" where
  "contentHeight s = fsub (canvasHeight s) (fmul (Fin 2) (padding s))"

definition maxPrice :: "chart \<Rightarrow> number" where
  "maxPrice s = mathMax (map (\<lambda>p. toNumber (close p)) (fullData s))"

definition minPrice :: "chart \<Rightarrow> number" where
  "minPrice s = mathMin (map (\<lambda>p. toNumber (close p)) (fullData s))"

definition xScale :: "chart \<Rightarrow> number" where
  "xScale s = fdiv (contentWidth s) (ofNat (length (fullData s)))"

definition yScale :: "chart \<Rightarrow> number" where
  "yScale s = fdiv (contentHeight s) (fsub (maxPrice s) (minPrice s))"

text \<open>
  The two coordinate expressions that \<^verbatim>\<open>plotClosingPrices\<close> and
  \<^verbatim>\<open>plotMovingAverage\<close> share:
  \<^verbatim>\<open>this.padding + index * xScale\<close> and
  \<^verbatim>\<open>this.padding + height - (price - minPrice) * yScale\<close>.
\<close>

definition indexToX :: "chart \<Rightarrow> number \<Rightarrow> nat \<Rightarrow> number" where
  "indexToX s xs index = fadd (padding s) (fmul (ofNat index) xs)"

definition priceToY :: "chart \<Rightarrow> number \<Rightarrow> number \<Rightarrow> number \<Rightarrow> number \<Rightarrow> number" where
  "priceToY s ys height mn price =
     fsub (fadd (padding s) height) (fmul (fsub price mn) ys)"

text \<open>
  What is drawn: the calls on the drawing context that build and paint paths and write
  text. A text is a string, a Number written with \<^verbatim>\<open>toFixed(2)\<close>, or the OHLC
  readout of a record.
\<close>

datatype label = Literal string | ToFixed2 number | Readout ohlc

datatype cmd =
    BeginPath
  | MoveTo number number
  | LineTo number number
  | ClosePath
  | Fill
  | Stroke
  | FillText label number number

definition gridY :: "chart \<Rightarrow> number \<Rightarrow> nat \<Rightarrow> number" where
  "gridY s height i = fadd (padding s) (fmul (ofNat i) (fdiv height (Fin 5)))"

definition drawGridLines :: "chart \<Rightarrow> number \<Rightarrow> number \<Rightarrow> cmd list" where
  "drawGridLines s height width =
     concat (map (\<lambda>i. [BeginPath, MoveTo (padding s) (gridY s height i),
                        LineTo (fadd width (padding s)) (gridY s height i), Stroke])
                 [0..<6])"

definition drawPriceLabels :: "chart \<Rightarrow> number \<Rightarrow> number \<Rightarrow> number \<Rightarrow> cmd list" where
  "drawPriceLabels s height mx mn =
     map (\<lambda>i. FillText (ToFixed2 (fsub mx (fmul (ofNat i) (fdiv (fsub mx mn) (Fin 5)))))
                 (fsub (padding s) (Fin 10)) (fadd (gridY s height i) (Fin 3)))
         [0..<6]"

text \<open>
  The loop of \<^verbatim>\<open>drawAxisLabels\<close> over the dates:
  \<^verbatim>\<open>for (let i = 0; i < this.fullData.length; i += Math.floor(this.fullData.length / 10))\<close>.
  The counter and the step are non-negative integers below \<open>2\<^sup>3\<^sup>2\<close>, on which the
  Number operations are exact, so they are natural numbers here. The loop may not return:
  its result is \<open>None\<close> then.
\<close>

partial_function (option) dateLabelLoop ::
  "chart \<Rightarrow> number \<Rightarrow> number \<Rightarrow> nat \<Rightarrow> cmd list \<Rightarrow> cmd list option" where
  "dateLabelLoop s height width i out =
     (if i < length (fullData s) then
        dateLabelLoop s height width (i + length (fullData s) div 10)
          (out @ [FillText (Literal (date (fullData s ! i)))
                    (fadd (padding s)
                       (fmul (ofNat i) (fdiv width (ofNat (length (fullData s))))))
                    (fadd (fadd height (padding s)) (Fin 20))])
      else Some out)"

definition drawAxisLabels ::
  "chart \<Rightarrow> number \<Rightarrow> number \<Rightarrow> number \<Rightarrow> number \<Rightarrow> cmd list option" where
  "drawAxisLabels s height mx mn width =
     dateLabelLoop s height width 0 (drawPriceLabels s height mx mn)"

definition closingVertex :: "chart \<Rightarrow> number \<Rightarrow> number \<Rightarrow> number \<Rightarrow> number \<Rightarrow> nat \<times> ohlc \<Rightarrow> cmd list" where
  "closingVertex s xs ys height mn ip =
     (let index = fst ip;
          x = indexToX s xs index;
          y = priceToY s ys height mn (toNumber (close (snd ip)))
      in if index = 0 then [MoveTo x (fadd height (padding s)), LineTo x y]
         else [LineTo x y])"

definition plotClosingPrices :: "chart \<Rightarrow> number \<Rightarrow> number \<Rightarrow> number \<Rightarrow> number \<Rightarrow> cmd list" where
  "plotClosingPrices s xs ys height mn =
     [BeginPath]
     @ concat (map (closingVertex s xs ys height mn) (enumerate 0 (fullData s)))
     @ [LineTo (fadd (padding s) (fmul (fsub (ofNat (length (fullData s))) (Fin 1)) xs))
               (fadd height (padding s)),
        ClosePath, Fill, Stroke]"

definition maVertex :: "chart \<Rightarrow> number \<Rightarrow> number \<Rightarrow> number \<Rightarrow> number \<Rightarrow> nat \<times> maPoint \<Rightarrow> cmd" where
  "maVertex s xs ys height mn ip =
     (let index = fst ip;
          x = indexToX s xs index;
          y = priceToY s ys height mn (avg (snd ip))
      in if index = 0 then MoveTo x y else LineTo x y)"

definition plotMovingAverage :: "chart \<Rightarrow> number \<Rightarrow> number \<Rightarrow> number \<Rightarrow> number \<Rightarrow> cmd list" where
  "plotMovingAverage s xs ys height mn =
     [BeginPath]
     @ map (maVertex s xs ys height mn) (enumerate 0 (movingAverage s))
     @ [Stroke]"

text \<open>
  \<^verbatim>\<open>plotChart\<close>, without the clearing of the canvases and the registration of the
  pointer handlers: what it draws on the stock canvas, if it returns.
\<close>

definition plotChart :: "chart \<Rightarrow> cmd list option" where
  "plotChart s =
     (let width = contentWidth s; height = contentHeight s;
          mx = maxPrice s; mn = minPrice s;
          xs = xScale s; ys = yScale s
      in case drawAxisLabels s height mx mn width of
           None \<Rightarrow> None
         | Some labels \<Rightarrow>
             Some (drawGridLines s height width @ labels
                   @ plotClosingPrices s xs ys height mn
                   @ plotMovingAverage s xs ys height mn))"

section \<open>The pointer\<close>

text \<open>
  The \<^verbatim>\<open>mousemove\<close> handler of \<^verbatim>\<open>addCrosshairsFunctionality\<close>, after the
  cross hairs are drawn: the index under the pointer and the readout. Calling
  \<^verbatim>\<open>toFixed\<close> on \<^verbatim>\<open>undefined\<close> throws a TypeError.
\<close>

datatype hit = NoPoint | Text ohlc | TypeError

definition dataIndex :: "chart \<Rightarrow> number \<Rightarrow> number \<Rightarrow> number" where
  "dataIndex s xs x = floorNum (fdiv (fsub x (padding s)) xs)"

definition readout :: "chart \<Rightarrow> number \<Rightarrow> number \<Rightarrow> hit" where
  "readout s xs x =
     (let di = dataIndex s xs x
      in if ge di (Fin 0) \<and> lt di (ofNat (length (fullData s))) then
           (let r = fullData s ! nat \<lfloor>val di\<rfloor>
            in if openPrice r = Undefined \<or> high r = Undefined \<or> low r = Undefined
                  \<or> close r = Undefined
               then TypeError else Text r)
         else NoPoint)"

section \<open>Zooming\<close>

text \<open>
  The \<^verbatim>\<open>wheel\<close> handler of \<^verbatim>\<open>addEventListeners\<close> multiplies or divides the
  width of the stock canvas by \<^verbatim>\<open>zoomFactor = 1.1\<close> and draws the chart again. The
  literal \<^verbatim>\<open>1.1\<close> is the binary64 value nearest to \<open>11 / 10\<close>.
\<close>

definition zoomFactor :: number where
  "zoomFactor = round64 (11 / 10)"

text \<open>
  The width of a canvas element is an attribute of the host, an \<^verbatim>\<open>unsigned long\<close>, and
  not a field of \<^verbatim>\<open>script.js\<close>. An assignment to it converts the Number to an integer
  as the interface language of the platform prescribes: NaN, the zeros and the infinities
  become \<open>0\<close>, any other value is truncated towards zero and reduced modulo \<open>2\<^sup>3\<^sup>2\<close>. The
  attribute keeps a value up to \<open>2\<^sup>3\<^sup>1 - 1\<close> and takes its default \<open>300\<close> for a larger one.
\<close>

definition toUnsignedLong :: "number \<Rightarrow> int" where
  "toUnsignedLong x =
     (case x of
        Fin q \<Rightarrow> (if q < 0 then - \<lfloor>- q\<rfloor> else \<lfloor>q\<rfloor>) mod 2 ^ 32
      | _ \<Rightarrow> 0)"

definition setCanvasWidth :: "number \<Rightarrow> number" where
  "setCanvasWidth x =
     (let n = toUnsignedLong x in if n \<le> 2147483647 then Fin (of_int n) else Fin 300)"

text \<open>
  The width that \<^verbatim>\<open>this.stockCanvas.width *= zoomFactor\<close> or
  \<^verbatim>\<open>this.stockCanvas.width /= zoomFactor\<close> leaves, by the sign of
  \<^verbatim>\<open>event.deltaY\<close>.
\<close>

definition zoomWidth :: "number \<Rightarrow> number \<Rightarrow> number" where
  "zoomWidth deltaY w =
     (if lt deltaY (Fin 0) then setCanvasWidth (fmul w zoomFactor)
      else setCanvasWidth (fdiv w zoomFactor))"

text \<open>
  The handler: the chart it leaves, if \<^verbatim>\<open>plotChart\<close> returns. A sequence of wheel
  events is handled one event after the other.
\<close>

definition wheel :: "number \<Rightarrow> chart \<Rightarrow> chart option" where
  "wheel deltaY s =
     (let s' = s\<lparr>canvasWidth := zoomWidth deltaY (canvasWidth s)\<rparr>
      in case plotChart s' of None \<Rightarrow> None | Some cmds \<Rightarrow> Some s')"

fun wheels :: "number list \<Rightarrow> chart \<Rightarrow> chart option" where
  "wheels [] s = Some s"
| "wheels (d # ds) s = (case wheel d s of None \<Rightarrow> None | Some s' \<Rightarrow> wheels ds s')"

section \<open>Example inputs\<close>

definition sampleRecord :: ohlc where
  "sampleRecord =
     \<lparr>date = ''2024-01-02'', openPrice = Num (Fin 10), high = Num (Fin 12),
      low = Num (Fin 9), close = Num (Fin 11)\<rparr>"

definition recordClosing :: "rat \<Rightarrow> ohlc" where
  "recordClosing c = sampleRecord\<lparr>close := Num (Fin c)\<rparr>"

text \<open>
  The chart after \<^verbatim>\<open>processCSVData\<close> has read the given records, on a canvas of the
  given width and height.
\<close>

definition chartOf :: "nat \<Rightarrow> nat \<Rightarrow> ohlc list \<Rightarrow> chart" where
  "chartOf w h records =
     (newChart (ofNat w) (ofNat h))\<lparr>fullData := records, closingPrices := map closingOf records\<rparr>"

text \<open>The four numeric fields of a record, in the order of the file.\<close>

definition numericFields :: "ohlc \<Rightarrow> jsval list" where
  "numericFields r = [openPrice r, high r, low r, close r]"

text \<open>
  A string that starts with an unsigned number: with \<^verbatim>\<open>Infinity\<close>, with a digit, or
  with a point and a digit.
\<close>

definition startsNumber :: "string \<Rightarrow> bool" where
  "startsNumber u =
     (take 8 u = ''Infinity''
      \<or> (case u of
            [] \<Rightarrow> False
          | c # r \<Rightarrow> isDigit c
                     \<or> (c = CHR ''.'' \<and> (case r of [] \<Rightarrow> False | d # _ \<Rightarrow> isDigit d))))"

text \<open>
  A field with a numeric prefix: after its leading white space comes an optional sign and
  then the start of an unsigned number.
\<close>

definition hasNumericPrefix :: "string \<Rightarrow> bool" where
  "hasNumericPrefix t =
     (case trimStart t of
        [] \<Rightarrow> False
      | c # u \<Rightarrow> if c = CHR ''+'' \<or> c = CHR ''-'' then startsNumber u
                 else startsNumber (c # u))"

section \<open>Facts about rounding\<close>

lemma two_powi_pos [simp]: "0 < (2::rat) powi k"
  by simp

lemma two_powi_Suc: "(2::rat) powi (k + 1) = 2 * 2 powi k"
  by (simp add: power_int_add)

lemma two_powi_less: "(2::rat) powi a < 2 powi b \<longleftrightarrow> a < b"
proof
  assume "(2::rat) powi a < 2 powi b"
  show "a < b"
  proof (rule ccontr)
    assume "\<not> a < b"
    then have "(2::rat) powi b \<le> 2 powi a" by (intro power_int_increasing) auto
    with \<open>(2::rat) powi a < 2 powi b\<close> show False by simp
  qed
next
  assume "a < b" then show "(2::rat) powi a < 2 powi b"
    by (intro power_int_strict_increasing) auto
qed

lemma two_powi_le: "(2::rat) powi a \<le> 2 powi b \<longleftrightarrow> a \<le> b"
  using two_powi_less[of b a] by (auto simp: not_less[symmetric])

lemma nat_pow_le_rat: "2 ^ j \<le> (n::nat) \<Longrightarrow> (2::rat) ^ j \<le> of_nat n"
  using of_nat_le_iff[of "2 ^ j" n, where 'a = rat] by simp

lemma nat_lt_pow_rat: "(n::nat) < 2 ^ j \<Longrightarrow> of_nat n + 1 \<le> (2::rat) ^ j"
  using of_nat_le_iff[of "n + 1" "2 ^ j", where 'a = rat] by simp

lemma ilog2_bounds:
  assumes "0 < q"
  shows "2 powi (ilog2 q) \<le> q \<and> q < 2 powi (ilog2 q + 1)"
proof (cases "1 \<le> q")
  case True
  define n where "n = nat \<lfloor>q\<rfloor>"
  define k where "k = floorlog 2 n"
  have n: "0 < n" using True by (simp add: n_def)
  have b: "2 ^ (k - 1) \<le> n" "n < 2 ^ k"
    using floorlog_bounds[of n 2] n by (simp_all add: k_def)
  have k: "0 < k" using b n by (cases k) auto
  have il: "ilog2 q = int k - 1" using True by (simp add: ilog2_def k_def n_def)
  have nq: "of_nat n \<le> q" "q < of_nat n + 1"
    using True by (simp_all add: n_def) linarith+
  have "(2::rat) powi (int k - 1) = 2 ^ (k - 1)"
    using k by (simp add: power_int_def nat_diff_distrib)
  also have "\<dots> \<le> of_nat n" using b(1) by (rule nat_pow_le_rat)
  finally have lo: "2 powi (ilog2 q) \<le> q" using nq il by simp
  have "of_nat n + 1 \<le> (2::rat) ^ k" using b(2) by (rule nat_lt_pow_rat)
  then have "q < 2 powi (int k)" using nq by simp
  then show ?thesis using lo il by simp
next
  case False
  define r where "r = 1 / q"
  define m where "m = nat (\<lceil>r\<rceil> - 1)"
  define k where "k = floorlog 2 m"
  have r1: "1 < r" using False assms by (simp add: r_def)
  then have c2: "2 \<le> \<lceil>r\<rceil>" by linarith
  then have m: "0 < m" by (simp add: m_def)
  have b: "2 ^ (k - 1) \<le> m" "m < 2 ^ k"
    using floorlog_bounds[of m 2] m by (simp_all add: k_def)
  have k: "0 < k" using b m by (cases k) auto
  have il: "ilog2 q = - int k" using False by (simp add: ilog2_def k_def m_def r_def)
  have mr: "of_nat m < r" "r \<le> of_nat m + 1"
    using c2 by (simp_all add: m_def) linarith+
  have "r \<le> (2::rat) ^ k"
  proof -
    have "of_nat m + 1 \<le> (2::rat) ^ k" using b(2) by (rule nat_lt_pow_rat)
    with mr show ?thesis by linarith
  qed
  then have "1 / 2 ^ k \<le> q"
    using assms r1 by (simp add: r_def field_simps)
  then have lo: "2 powi (ilog2 q) \<le> q"
    by (simp add: il power_int_minus field_simps)
  have "(2::rat) ^ (k - 1) < r"
  proof -
    have "(2::rat) ^ (k - 1) \<le> of_nat m" using b(1) by (rule nat_pow_le_rat)
    with mr show ?thesis by linarith
  qed
  then have "q < 1 / 2 ^ (k - 1)"
    using assms by (simp add: r_def field_simps)
  moreover have "(2::rat) powi (- int k + 1) = 1 / 2 ^ (k - 1)"
    using k by (cases k) (simp_all add: power_int_def field_simps)
  ultimately show ?thesis using lo il by simp
qed

lemma ilog2_unique:
  assumes "2 powi e \<le> q" "q < 2 powi (e + 1)"
  shows "ilog2 q = e"
proof -
  have q: "0 < q" using assms(1) two_powi_pos[of e] by linarith
  note b = ilog2_bounds[OF q]
  have "2 powi e < (2::rat) powi (ilog2 q + 1)" using assms b by linarith
  then have 1: "e < ilog2 q + 1" by (simp add: two_powi_less)
  have "2 powi (ilog2 q) < (2::rat) powi (e + 1)" using assms b by linarith
  then have 2: "ilog2 q < e + 1" by (simp add: two_powi_less)
  from 1 2 show ?thesis by simp
qed

lemma ilog2_mono:
  assumes "0 < x" "x \<le> y"
  shows "ilog2 x \<le> ilog2 y"
proof -
  have y: "0 < y" using assms by simp
  have "2 powi (ilog2 x) < (2::rat) powi (ilog2 y + 1)"
    using ilog2_bounds[OF assms(1)] ilog2_bounds[OF y] assms(2) by linarith
  then show ?thesis by (simp add: two_powi_less)
qed


section \<open>rne\<close>

lemma rne_of_int [simp]: "rne (of_int m) = m"
  by (simp add: rne_def)

lemma rne_numeral [simp]: "rne (numeral n) = numeral n"
  using rne_of_int[of "numeral n"] by simp

lemma rne_0 [simp]: "rne 0 = 0"
  using rne_of_int[of 0] by simp

lemma rne_bounds: "x - 1 / 2 \<le> of_int (rne x) \<and> of_int (rne x) \<le> x + 1 / 2"
proof -
  have f: "of_int \<lfloor>x\<rfloor> \<le> x" "x < of_int \<lfloor>x\<rfloor> + 1" by linarith+
  have r: "(rne x = \<lfloor>x\<rfloor> \<and> x - of_int \<lfloor>x\<rfloor> \<le> 1 / 2)
         \<or> (rne x = \<lfloor>x\<rfloor> + 1 \<and> 1 / 2 \<le> x - of_int \<lfloor>x\<rfloor>)"
    unfolding rne_def Let_def by (auto simp only: not_less split: if_splits intro: less_imp_le)
  from r show ?thesis
  proof (elim disjE conjE)
    assume a: "rne x = \<lfloor>x\<rfloor>" "x - of_int \<lfloor>x\<rfloor> \<le> 1 / 2"
    have "x - 1 / 2 \<le> of_int \<lfloor>x\<rfloor>" "of_int \<lfloor>x\<rfloor> \<le> x + 1 / 2"
      using f a(2) by linarith+
    then show ?thesis unfolding a(1) by (rule conjI)
  next
    assume a: "rne x = \<lfloor>x\<rfloor> + 1" "1 / 2 \<le> x - of_int \<lfloor>x\<rfloor>"
    have "x - 1 / 2 \<le> of_int \<lfloor>x\<rfloor> + 1" "of_int \<lfloor>x\<rfloor> + 1 \<le> x + 1 / 2"
      using f a(2) by linarith+
    then show ?thesis unfolding a(1) of_int_add of_int_1 by (rule conjI)
  qed
qed

lemma rne_near:
  assumes "\<bar>x - of_int m\<bar> < 1 / 2"
  shows "rne x = m"
proof -
  have "\<bar>(of_int (rne x) :: rat) - of_int m\<bar> < 1"
    using rne_bounds[of x] assms by linarith
  then have "\<bar>(of_int (rne x - m) :: rat)\<bar> < 1" by simp
  then have "\<bar>rne x - m\<bar> < 1"
    by (metis of_int_abs of_int_less_1_iff)
  then show ?thesis by simp
qed

lemma rne_mono:
  assumes "x \<le> y"
  shows "rne x \<le> rne y"
proof (rule ccontr)
  assume "\<not> rne x \<le> rne y"
  then have "rne y + 1 \<le> rne x" by simp
  then have "(of_int (rne y) :: rat) + 1 \<le> of_int (rne x)"
    by (metis of_int_1 of_int_add of_int_le_iff)
  with rne_bounds[of x] rne_bounds[of y] assms have "x = y" by linarith
  with \<open>\<not> rne x \<le> rne y\<close> show False by simp
qed

section \<open>nearest\<close>


lemma ulp_bexp: "ulp a = 2 powi (bexp a - 52)"
  by (simp add: ulp_def)

lemma ulp_pos [simp]: "0 < ulp a"
  by (simp add: ulp_def)

lemma ulp_ge0 [simp]: "0 \<le> ulp a"
  using ulp_pos[of a] by (rule less_imp_le)

lemma ulp_neq0 [simp]: "ulp a \<noteq> 0"
  by (simp add: ulp_def)

lemma bexp_ge: "- 1022 \<le> bexp a"
  by (simp add: bexp_def)

lemma bexp_mono: "0 < x \<Longrightarrow> x \<le> y \<Longrightarrow> bexp x \<le> bexp y"
  using ilog2_mono[of x y] by (simp add: bexp_def)

lemma less_two_powi_bexp:
  assumes "0 < a"
  shows "a < 2 powi (bexp a + 1)"
proof -
  have "a < 2 powi (ilog2 a + 1)" using ilog2_bounds[OF assms] by simp
  also have "\<dots> \<le> 2 powi (bexp a + 1)"
    by (simp add: two_powi_le bexp_def)
  finally show ?thesis .
qed

lemma two_powi_53_ulp: "2 ^ 53 * ulp a = 2 powi (bexp a + 1)"
proof -
  have "(2::rat) powi (bexp a + 1) = 2 powi (53 + (bexp a - 52))"
    by (rule arg_cong[where f = "\<lambda>k. 2 powi k"]) simp
  also have "\<dots> = 2 powi 53 * 2 powi (bexp a - 52)"
    by (subst power_int_add) simp_all
  finally show ?thesis by (simp add: ulp_bexp)
qed

lemma two_powi_52_ulp: "2 ^ 52 * ulp a = 2 powi (bexp a)"
proof -
  have "(2::rat) powi (bexp a) = 2 powi (52 + (bexp a - 52))"
    by (rule arg_cong[where f = "\<lambda>k. 2 powi k"]) simp
  also have "\<dots> = 2 powi 52 * 2 powi (bexp a - 52)"
    by (subst power_int_add) simp_all
  finally show ?thesis by (simp add: ulp_bexp)
qed

lemma scaled_less:
  assumes "0 < a"
  shows "a / ulp a < 2 ^ 53"
  using less_two_powi_bexp[OF assms] two_powi_53_ulp[of a]
  by (simp add: field_simps)

lemma mant_le:
  assumes "0 < a"
  shows "rne (a / ulp a) \<le> 2 ^ 53"
proof -
  have "rne (a / ulp a) \<le> rne (of_int (2 ^ 53))"
    using scaled_less[OF assms] by (intro rne_mono) simp
  then show ?thesis by simp
qed

lemma mant_ge0:
  assumes "0 < a"
  shows "0 \<le> rne (a / ulp a)"
proof -
  have "0 \<le> a / ulp a" using assms by (intro divide_nonneg_pos) simp_all
  then have "rne 0 \<le> rne (a / ulp a)" by (rule rne_mono)
  then show ?thesis by simp
qed

lemma mant_ge:
  assumes "2 powi (bexp a) \<le> a"
  shows "2 ^ 52 \<le> rne (a / ulp a)"
proof -
  have "2 ^ 52 \<le> a / ulp a"
    using assms two_powi_52_ulp[of a] by (simp add: field_simps)
  then have "rne (of_int (2 ^ 52)) \<le> rne (a / ulp a)"
    by (intro rne_mono) simp
  then show ?thesis by simp
qed

lemma nearest_le:
  assumes "0 < a"
  shows "nearest a \<le> 2 powi (bexp a + 1)"
proof -
  have "(of_int (rne (a / ulp a)) :: rat) \<le> of_int (2 ^ 53)"
    using mant_le[OF assms] by (simp only: of_int_le_iff)
  then have "of_int (rne (a / ulp a)) * ulp a \<le> 2 ^ 53 * ulp a"
    by (intro mult_right_mono) simp_all
  then have "of_int (rne (a / ulp a)) * ulp a \<le> 2 powi (bexp a + 1)"
    by (simp only: two_powi_53_ulp)
  then show ?thesis unfolding nearest_def .
qed

lemma nearest_ge:
  assumes "2 powi (bexp a) \<le> a"
  shows "2 powi (bexp a) \<le> nearest a"
proof -
  have "(of_int (2 ^ 52) :: rat) \<le> of_int (rne (a / ulp a))"
    using mant_ge[OF assms] by (simp only: of_int_le_iff)
  then have "2 ^ 52 * ulp a \<le> of_int (rne (a / ulp a)) * ulp a"
    by (intro mult_right_mono) simp_all
  then have "2 powi (bexp a) \<le> of_int (rne (a / ulp a)) * ulp a"
    by (simp only: two_powi_52_ulp)
  then show ?thesis unfolding nearest_def .
qed

lemma nearest_nonneg:
  assumes "0 < a"
  shows "0 \<le> nearest a"
  using mant_ge0[OF assms] by (simp add: nearest_def zero_le_mult_iff)

lemma nearest_mono:
  assumes "0 < x" "x \<le> y"
  shows "nearest x \<le> nearest y"
proof (cases "bexp x = bexp y")
  case True
  then have u: "ulp x = ulp y" by (simp add: ulp_bexp)
  have "x / ulp y \<le> y / ulp y"
    using assms(2) by (intro divide_right_mono) simp_all
  then have "rne (x / ulp y) \<le> rne (y / ulp y)" by (rule rne_mono)
  then have "(of_int (rne (x / ulp y)) :: rat) \<le> of_int (rne (y / ulp y))"
    by (simp only: of_int_le_iff)
  then show ?thesis
    unfolding nearest_def u by (intro mult_right_mono) simp_all
next
  case False
  with bexp_mono[OF assms] have lt: "bexp x < bexp y" by simp
  have y: "0 < y" using assms by simp
  have "- 1022 < bexp y" using lt bexp_ge[of x] by simp
  then have "bexp y = ilog2 y" by (simp add: bexp_def)
  then have "2 powi (bexp y) \<le> y" using ilog2_bounds[OF y] by simp
  then have "2 powi (bexp y) \<le> nearest y" by (rule nearest_ge)
  moreover have "nearest x \<le> 2 powi (bexp x + 1)" using assms(1) by (rule nearest_le)
  moreover have "(2::rat) powi (bexp x + 1) \<le> 2 powi (bexp y)"
    using lt by (simp add: two_powi_le)
  ultimately show ?thesis by linarith
qed

lemma nearest_exact:
  assumes "0 < m" "m < 2 ^ 53" "- 1074 \<le> k"
  shows "nearest (of_int m * 2 powi k) = of_int m * 2 powi k"
proof -
  define a :: rat where "a = of_int m * 2 powi k"
  have a: "0 < a" using assms(1) by (simp add: a_def)
  have "(of_int m :: rat) < of_int (2 ^ 53)" using assms(2) by (simp only: of_int_less_iff)
  then have "a < 2 ^ 53 * 2 powi k"
    unfolding a_def by (intro mult_strict_right_mono) simp_all
  also have "\<dots> = 2 powi (k + 53)"
    by (subst power_int_add) simp_all
  finally have "2 powi (ilog2 a) < (2::rat) powi (k + 53)"
    using ilog2_bounds[OF a] by linarith
  then have "ilog2 a < k + 53" by (simp add: two_powi_less)
  then have j: "bexp a - 52 \<le> k" using assms(3) by (simp add: bexp_def)
  define j where "j = bexp a - 52"
  have k: "k = j + int (nat (k - j))" using j by (simp add: j_def)
  have "(2::rat) powi k = 2 powi (j + int (nat (k - j)))"
    using k by simp
  also have "\<dots> = 2 powi j * 2 powi (int (nat (k - j)))"
    by (subst power_int_add) simp_all
  finally have "(2::rat) powi k = 2 powi j * 2 ^ nat (k - j)"
    by (simp only: power_int_of_nat)
  have uj: "ulp a = 2 powi j" by (simp add: ulp_bexp j_def)
  have "a = (of_int m * 2 ^ nat (k - j)) * ulp a"
    unfolding uj unfolding a_def
    by (subst \<open>(2::rat) powi k = 2 powi j * 2 ^ nat (k - j)\<close>) (simp add: mult_ac)
  then have "a / ulp a = of_int m * 2 ^ nat (k - j)"
    by (metis nonzero_mult_div_cancel_right ulp_neq0)
  then have sc: "a / ulp a = of_int (m * 2 ^ nat (k - j))"
    by simp
  have "rne (a / ulp a) = m * 2 ^ nat (k - j)"
    unfolding sc by (rule rne_of_int)
  then have "nearest a = of_int (m * 2 ^ nat (k - j)) * ulp a"
    by (simp only: nearest_def)
  also have "\<dots> = (of_int m * 2 ^ nat (k - j)) * ulp a" by simp
  also have "\<dots> = a"
    using \<open>a = (of_int m * 2 ^ nat (k - j)) * ulp a\<close> by simp
  finally show ?thesis by (simp only: a_def)
qed

lemma nearest_repr:
  assumes "0 < a" "0 < nearest a"
  shows "\<exists>m k. nearest a = of_int m * 2 powi k \<and> 0 < m \<and> m < 2 ^ 53 \<and> - 1074 \<le> k
           \<and> bexp a - 52 \<le> k"
proof (cases "rne (a / ulp a) = 2 ^ 53")
  case True
  then have "nearest a = of_int 1 * 2 powi (bexp a + 1)"
    using two_powi_53_ulp[of a] by (simp add: nearest_def)
  moreover have "- 1074 \<le> bexp a + 1" using bexp_ge[of a] by simp
  ultimately show ?thesis by (intro exI[of _ 1] exI[of _ "bexp a + 1"]) simp
next
  case False
  with mant_le[OF assms(1)] have "rne (a / ulp a) < 2 ^ 53" by simp
  moreover have "0 < rne (a / ulp a)"
  proof (rule ccontr)
    assume "\<not> 0 < rne (a / ulp a)"
    with mant_ge0[OF assms(1)] have "rne (a / ulp a) = 0" by simp
    with assms(2) show False by (simp add: nearest_def)
  qed
  moreover have "- 1074 \<le> bexp a - 52" using bexp_ge[of a] by simp
  ultimately show ?thesis
    by (intro exI[of _ "rne (a / ulp a)"] exI[of _ "bexp a - 52"])
       (simp add: nearest_def ulp_bexp)
qed

lemma nearest_idem:
  assumes "0 < a" "0 < nearest a"
  shows "nearest (nearest a) = nearest a"
proof -
  from nearest_repr[OF assms] obtain m k where
    "nearest a = of_int m * 2 powi k" "0 < m" "m < 2 ^ 53" "- 1074 \<le> k" by blast
  then show ?thesis using nearest_exact[of m k] by simp
qed


section \<open>round64\<close>


lemma round64_0 [simp]: "round64 0 = Fin 0"
  by (simp add: round64_def)

lemma round64_pos:
  assumes "0 < q"
  shows "round64 q = (if 2 powi 1024 \<le> nearest q then PosInf
                      else if nearest q = 0 then Fin 0 else Fin (nearest q))"
  using assms by (simp add: round64_def Let_def)

lemma round64_neg:
  assumes "q < 0"
  shows "round64 q = (if 2 powi 1024 \<le> nearest (- q) then NegInf
                      else if nearest (- q) = 0 then NegZero else Fin (- nearest (- q)))"
  using assms by (simp add: round64_def Let_def)

lemma round64_not_NaN [simp]: "round64 q \<noteq> NaN"
  by (simp add: round64_def Let_def)

lemma round64_exact:
  assumes "\<bar>m\<bar> < 2 ^ 53" "- 1074 \<le> k" "k \<le> 971"
  shows "round64 (of_int m * 2 powi k) = Fin (of_int m * 2 powi k)"
proof -
  have big: "of_int n * 2 powi k < (2::rat) powi 1024" if "0 < n" "n < 2 ^ 53" for n
  proof -
    have "(of_int n :: rat) < of_int (2 ^ 53)" using that(2) by (simp only: of_int_less_iff)
    then have "of_int n * 2 powi k < 2 ^ 53 * (2::rat) powi k"
      by (intro mult_strict_right_mono) simp_all
    also have "\<dots> = 2 powi (k + 53)"
      by (subst power_int_add) simp_all
    also have "\<dots> \<le> 2 powi 1024" using assms(3) by (simp only: two_powi_le)
    finally show ?thesis .
  qed
  consider "m = 0" | "0 < m" | "m < 0" by linarith
  then show ?thesis
  proof cases
    case 1
    then show ?thesis by simp
  next
    case 2
    then have m: "m < 2 ^ 53" using assms(1) by simp
    have q: "0 < of_int m * (2::rat) powi k" using 2 by simp
    have n: "nearest (of_int m * 2 powi k) = of_int m * 2 powi k"
      using 2 m assms(2) by (rule nearest_exact)
    show ?thesis
      using big[OF 2 m] q unfolding round64_pos[OF q] n by simp
  next
    case 3
    then have m: "0 < - m" "- m < 2 ^ 53" using assms(1) by simp_all
    have q: "of_int m * (2::rat) powi k < 0" using 3 by (simp add: mult_neg_pos)
    have n: "nearest (of_int (- m) * 2 powi k) = of_int (- m) * 2 powi k"
      using m assms(2) by (rule nearest_exact)
    have e: "- (of_int m * (2::rat) powi k) = of_int (- m) * 2 powi k" by simp
    have "0 < of_int (- m) * (2::rat) powi k" using m(1) by (simp only: zero_less_mult_iff) simp
    then show ?thesis
      using big[OF m] 3 unfolding round64_neg[OF q] e n by simp
  qed
qed

lemma round64_of_int:
  assumes "\<bar>n\<bar> < 2 ^ 53"
  shows "round64 (of_int n) = Fin (of_int n)"
  using round64_exact[of n 0] assms by simp

lemma round64_of_nat:
  assumes "n < 2 ^ 53"
  shows "round64 (of_nat n) = Fin (of_nat n)"
  using round64_of_int[of "int n"] assms by simp


lemma round64_idem:
  assumes "round64 q = Fin v"
  shows "round64 v = Fin v"
proof -
  consider "q = 0" | "0 < q" | "q < 0" by linarith
  then show ?thesis
  proof cases
    case 1
    with assms show ?thesis by simp
  next
    case 2
    show ?thesis
    proof (cases "nearest q = 0")
      case True
      with assms 2 show ?thesis by (simp add: round64_pos split: if_splits)
    next
      case False
      with assms 2 have v: "v = nearest q" "nearest q < 2 powi 1024"
        by (simp_all add: round64_pos split: if_splits)
      have p: "0 < nearest q" using nearest_nonneg[OF 2] False by simp
      have "nearest v = v" unfolding v(1) using 2 p by (rule nearest_idem)
      then show ?thesis using v p by (simp add: round64_pos)
    qed
  next
    case 3
    then have q: "0 < - q" by simp
    show ?thesis
    proof (cases "nearest (- q) = 0")
      case True
      with assms 3 show ?thesis by (simp add: round64_neg split: if_splits)
    next
      case False
      with assms 3 have v: "v = - nearest (- q)" "nearest (- q) < 2 powi 1024"
        by (simp_all add: round64_neg split: if_splits)
      have p: "0 < nearest (- q)" using nearest_nonneg[OF q] False by simp
      have "nearest (- v) = - v" unfolding v(1) using nearest_idem[OF q p] by simp
      moreover have "v < 0" using v p by simp
      ultimately show ?thesis using v p by (simp add: round64_neg)
    qed
  qed
qed

lemma le_Fin_left:
  "le (Fin c) x \<longleftrightarrow> x = PosInf \<or> (x = NegZero \<and> c \<le> 0) \<or> (\<exists>v. x = Fin v \<and> c \<le> v)"
  by (cases x) (auto simp: le_def)

lemma le_Fin_right:
  "le x (Fin c) \<longleftrightarrow> x = NegInf \<or> (x = NegZero \<and> 0 \<le> c) \<or> (\<exists>v. x = Fin v \<and> v \<le> c)"
  by (cases x) (auto simp: le_def)

lemma round64_mono:
  assumes "x \<le> y"
  shows "le (round64 x) (round64 y)"
proof -
  have pos: "le (round64 a) (round64 b)" if "0 < a" "a \<le> b" for a b
  proof -
    have b: "0 < b" using that by simp
    have "nearest a \<le> nearest b" using that by (rule nearest_mono)
    moreover have "0 \<le> nearest a" using that(1) by (rule nearest_nonneg)
    ultimately show ?thesis
      unfolding round64_pos[OF that(1)] round64_pos[OF b] by (auto simp: le_def)
  qed
  have neg: "le (round64 a) (round64 b)" if "a \<le> b" "b < 0" for a b
  proof -
    have a: "a < 0" using that by simp
    have "nearest (- b) \<le> nearest (- a)" using that by (intro nearest_mono) simp_all
    moreover have "0 \<le> nearest (- b)" using that(2) by (intro nearest_nonneg) simp
    ultimately show ?thesis
      unfolding round64_neg[OF that(2)] round64_neg[OF a] by (auto simp: le_def)
  qed
  have nonneg: "le (Fin 0) (round64 b)" if "0 < b" for b
    using nearest_nonneg[OF that] unfolding round64_pos[OF that] by (auto simp: le_def)
  have nonpos: "le (round64 a) (Fin 0)" if "a < 0" for a
    using nearest_nonneg[of "- a"] that unfolding round64_neg[OF that] by (auto simp: le_def)
  consider "0 < x" | "y < 0" | "x = 0" "y = 0" | "x = 0" "0 < y" | "x < 0" "y = 0"
    | "x < 0" "0 < y" using assms by linarith
  then show ?thesis
  proof cases
    case 1 then show ?thesis using assms by (intro pos)
  next
    case 2 then show ?thesis using assms by (intro neg)
  next
    case 3 then show ?thesis by (simp add: le_def)
  next
    case 4 then show ?thesis using nonneg[of y] by simp
  next
    case 5 then show ?thesis using nonpos[of x] by simp
  next
    case 6
    then show ?thesis
      using nonneg[of y] nonpos[of x]
      by (cases "round64 x"; cases "round64 y") (auto simp: le_def)
  qed
qed

lemma round64_le:
  assumes "q \<le> c" "round64 c = Fin c"
  shows "le (round64 q) (Fin c)"
  using round64_mono[OF assms(1)] assms(2) by simp

lemma round64_ge:
  assumes "c \<le> q" "round64 c = Fin c"
  shows "le (Fin c) (round64 q)"
  using round64_mono[OF assms(1)] assms(2) by simp


section \<open>Evaluating a rounding\<close>

lemma nearest_eval:
  assumes "2 powi e \<le> a" "a < 2 powi (e + 1)" "- 1022 \<le> e"
    and "\<bar>a / 2 powi (e - 52) - of_int m\<bar> < 1 / 2"
  shows "nearest a = of_int m * 2 powi (e - 52)"
proof -
  have "ilog2 a = e" using assms(1,2) by (rule ilog2_unique)
  then have u: "ulp a = 2 powi (e - 52)" using assms(3) by (simp add: ulp_def bexp_def)
  have "rne (a / 2 powi (e - 52)) = m" using assms(4) by (rule rne_near)
  then show ?thesis by (simp add: nearest_def u)
qed

lemma round64_eval_pos:
  assumes "2 powi e \<le> a" "a < 2 powi (e + 1)" "- 1022 \<le> e" "e \<le> 1022"
    and "\<bar>a / 2 powi (e - 52) - of_int m\<bar> < 1 / 2"
  shows "round64 a = Fin (of_int m * 2 powi (e - 52))"
proof -
  have a: "0 < a" using assms(1) two_powi_pos[of e] by linarith
  have n: "nearest a = of_int m * 2 powi (e - 52)"
    using assms(1,2,3,5) by (rule nearest_eval)
  have "ilog2 a = e" using assms(1,2) by (rule ilog2_unique)
  then have b: "bexp a = e" using assms(3) by (simp add: bexp_def)
  have "2 powi e \<le> nearest a" using nearest_ge[of a] assms(1) b by simp
  then have p: "0 < nearest a" using two_powi_pos[of e] by linarith
  have "nearest a \<le> 2 powi (e + 1)" using nearest_le[OF a] b by simp
  also have "\<dots> < 2 powi 1024" using assms(4) by (simp only: two_powi_less)
  finally have "\<not> 2 powi 1024 \<le> nearest a" by simp
  then show ?thesis using p unfolding round64_pos[OF a] n[symmetric] by simp
qed

lemma round64_eval_neg:
  assumes "2 powi e \<le> a" "a < 2 powi (e + 1)" "- 1022 \<le> e" "e \<le> 1022"
    and "\<bar>a / 2 powi (e - 52) - of_int m\<bar> < 1 / 2"
  shows "round64 (- a) = Fin (- (of_int m * 2 powi (e - 52)))"
proof -
  have a: "0 < a" using assms(1) two_powi_pos[of e] by linarith
  then have na: "- a < 0" by simp
  have n: "nearest a = of_int m * 2 powi (e - 52)"
    using assms(1,2,3,5) by (rule nearest_eval)
  have "ilog2 a = e" using assms(1,2) by (rule ilog2_unique)
  then have b: "bexp a = e" using assms(3) by (simp add: bexp_def)
  have "2 powi e \<le> nearest a" using nearest_ge[of a] assms(1) b by simp
  then have p: "0 < nearest a" using two_powi_pos[of e] by linarith
  have "nearest a \<le> 2 powi (e + 1)" using nearest_le[OF a] b by simp
  also have "\<dots> < 2 powi 1024" using assms(4) by (simp only: two_powi_less)
  finally have "\<not> 2 powi 1024 \<le> nearest a" by simp
  then have "round64 (- a) = Fin (- nearest a)"
    using p by (simp add: round64_neg[OF na])
  then show ?thesis by (simp only: n)
qed

lemma fadd_Fin: "fadd (Fin a) (Fin b) = round64 (a + b)"
  by (simp add: fadd_def isInf_def)

lemma fsub_Fin: "fsub (Fin a) (Fin b) = round64 (a - b)"
  by (simp add: fsub_def fadd_def isInf_def)

lemma fmul_Fin: "a \<noteq> 0 \<Longrightarrow> b \<noteq> 0 \<Longrightarrow> fmul (Fin a) (Fin b) = round64 (a * b)"
  by (simp add: fmul_def isInf_def isZero_def)

lemma fdiv_Fin: "a \<noteq> 0 \<Longrightarrow> b \<noteq> 0 \<Longrightarrow> fdiv (Fin a) (Fin b) = round64 (a / b)"
  by (simp add: fdiv_def isInf_def isZero_def)

lemma round64_numeral:
  "(numeral n :: int) < 2 ^ 53 \<Longrightarrow> round64 (numeral n) = Fin (numeral n)"
  using round64_of_int[of "numeral n"] by simp

lemma round64_eval_pos_rne:
  assumes "2 powi e \<le> a" "a < 2 powi (e + 1)" "- 1022 \<le> e" "e \<le> 1022"
  shows "round64 a = Fin (of_int (rne (a / 2 powi (e - 52))) * 2 powi (e - 52))"
proof -
  have a: "0 < a" using assms(1) two_powi_pos[of e] by linarith
  have "ilog2 a = e" using assms(1,2) by (rule ilog2_unique)
  then have b: "bexp a = e" using assms(3) by (simp add: bexp_def)
  then have n: "nearest a = of_int (rne (a / 2 powi (e - 52))) * 2 powi (e - 52)"
    by (simp add: nearest_def ulp_bexp)
  have "2 powi e \<le> nearest a" using nearest_ge[of a] assms(1) b by simp
  then have p: "0 < nearest a" using two_powi_pos[of e] by linarith
  have "nearest a \<le> 2 powi (e + 1)" using nearest_le[OF a] b by simp
  also have "\<dots> < 2 powi 1024" using assms(4) by (simp only: two_powi_less)
  finally have "\<not> 2 powi 1024 \<le> nearest a" by simp
  then have "round64 a = Fin (nearest a)"
    using p by (simp add: round64_pos[OF a])
  then show ?thesis by (simp only: n)
qed

lemma round64_eval_neg_rne:
  assumes "2 powi e \<le> a" "a < 2 powi (e + 1)" "- 1022 \<le> e" "e \<le> 1022"
  shows "round64 (- a) = Fin (- (of_int (rne (a / 2 powi (e - 52))) * 2 powi (e - 52)))"
proof -
  have a: "0 < a" using assms(1) two_powi_pos[of e] by linarith
  then have na: "- a < 0" by simp
  have "ilog2 a = e" using assms(1,2) by (rule ilog2_unique)
  then have b: "bexp a = e" using assms(3) by (simp add: bexp_def)
  then have n: "nearest a = of_int (rne (a / 2 powi (e - 52))) * 2 powi (e - 52)"
    by (simp add: nearest_def ulp_bexp)
  have "2 powi e \<le> nearest a" using nearest_ge[of a] assms(1) b by simp
  then have p: "0 < nearest a" using two_powi_pos[of e] by linarith
  have "nearest a \<le> 2 powi (e + 1)" using nearest_le[OF a] b by simp
  also have "\<dots> < 2 powi 1024" using assms(4) by (simp only: two_powi_less)
  finally have "\<not> 2 powi 1024 \<le> nearest a" by simp
  then have "round64 (- a) = Fin (- nearest a)"
    using p by (simp add: round64_neg[OF na])
  then show ?thesis by (simp only: n)
qed

lemma floor_numeral_div:
  "\<lfloor>(numeral a :: rat) / numeral b\<rfloor> = numeral a div numeral b"
  using floor_divide_of_int_eq[of "numeral a" "numeral b", where 'a = rat] by simp

section \<open>Evaluating Number arithmetic\<close>

lemma round64_neg_numeral:
  "(numeral n :: int) < 2 ^ 53 \<Longrightarrow> round64 (- numeral n) = Fin (- numeral n)"
  using round64_of_int[of "- numeral n"] by simp

lemma round64_1 [simp]: "round64 1 = Fin 1"
  using round64_of_int[of 1] by simp

lemmas num_eval =
  fadd_Fin fsub_Fin fmul_Fin fdiv_Fin round64_numeral round64_neg_numeral ofNat_def

lemmas parse_eval =
  parseLine_def parseFloat_def parseUnsigned_def trimStart_def isWhiteSpace_def isDigit_def
  digitsVal_def exponentPart_def element_def signedZero_def signedInf_def Let_def


section \<open>The error of a rounding\<close>

lemma nearest_error:
  "\<bar>nearest a - a\<bar> \<le> ulp a / 2"
proof -
  have b: "a / ulp a - 1 / 2 \<le> of_int (rne (a / ulp a))"
    "of_int (rne (a / ulp a)) \<le> a / ulp a + 1 / 2"
    using rne_bounds[of "a / ulp a"] by simp_all
  have "(a / ulp a - 1 / 2) * ulp a \<le> of_int (rne (a / ulp a)) * ulp a"
    using b(1) by (intro mult_right_mono) simp_all
  moreover have "of_int (rne (a / ulp a)) * ulp a \<le> (a / ulp a + 1 / 2) * ulp a"
    using b(2) by (intro mult_right_mono) simp_all
  moreover have "(a / ulp a - 1 / 2) * ulp a = a - ulp a / 2"
    "(a / ulp a + 1 / 2) * ulp a = a + ulp a / 2"
    by (simp_all add: field_simps)
  ultimately have "a - ulp a / 2 \<le> nearest a" "nearest a \<le> a + ulp a / 2"
    by (simp_all only: nearest_def)
  then show ?thesis by linarith
qed

lemma ulp_le_normal:
  assumes "2 powi (- 1022) \<le> a"
  shows "ulp a \<le> a * 2 powi (- 52)"
proof -
  have a: "0 < a" using assms two_powi_pos[of "- 1022"] by linarith
  have "2 powi (- 1022) < (2::rat) powi (ilog2 a + 1)"
    using ilog2_bounds[OF a] assms by linarith
  then have "- 1022 < ilog2 a + 1" by (simp only: two_powi_less)
  then have "bexp a = ilog2 a" by (simp add: bexp_def)
  then have "ulp a = 2 powi (ilog2 a + (- 52))" by (simp add: ulp_bexp)
  also have "\<dots> = 2 powi (ilog2 a) * 2 powi (- 52)"
    by (subst power_int_add) simp_all
  also have "\<dots> \<le> a * 2 powi (- 52)"
    using ilog2_bounds[OF a] by (intro mult_right_mono) simp_all
  finally show ?thesis .
qed

lemma round64_error:
  assumes "2 powi (- 1022) \<le> a" "a < 2 powi 1023"
  obtains v where "round64 a = Fin v" "\<bar>v - a\<bar> \<le> a * 2 powi (- 53)" "0 < v"
proof -
  have a: "0 < a" using assms(1) two_powi_pos[of "- 1022"] by linarith
  have "2 powi (ilog2 a) < (2::rat) powi 1023" using ilog2_bounds[OF a] assms(2) by linarith
  then have i1: "ilog2 a < 1023" by (simp only: two_powi_less)
  have "2 powi (- 1022) < (2::rat) powi (ilog2 a + 1)"
    using ilog2_bounds[OF a] assms(1) by linarith
  then have i2: "- 1022 < ilog2 a + 1" by (simp only: two_powi_less)
  have b: "bexp a = ilog2 a" using i2 by (simp add: bexp_def)
  have "2 powi (bexp a) \<le> a" using ilog2_bounds[OF a] b by simp
  then have "2 powi (bexp a) \<le> nearest a" by (rule nearest_ge)
  then have p: "0 < nearest a" using two_powi_pos[of "bexp a"] by linarith
  have "nearest a \<le> 2 powi (bexp a + 1)" using a by (rule nearest_le)
  also have "\<dots> < 2 powi 1024" using i1 b by (simp only: two_powi_less)
  finally have "\<not> 2 powi 1024 \<le> nearest a" by simp
  then have r: "round64 a = Fin (nearest a)" using p by (simp add: round64_pos[OF a])
  have "\<bar>nearest a - a\<bar> \<le> ulp a / 2" by (rule nearest_error)
  also have "\<dots> \<le> a * 2 powi (- 52) / 2"
    using ulp_le_normal[OF assms(1)] by (intro divide_right_mono) simp_all
  also have "\<dots> = a * 2 powi (- 53)"
  proof -
    have "(2::rat) powi (- 53) = 2 powi (- 52 + (- 1))" by simp
    also have "\<dots> = 2 powi (- 52) * 2 powi (- 1)" by (subst power_int_add) simp_all
    finally show ?thesis by simp
  qed
  finally show ?thesis using that r p by blast
qed



lemma round64_half_int:
  assumes "\<bar>2 * k + 1\<bar> < 2 ^ 53"
  shows "round64 (of_int k + 1 / 2) = Fin (of_int k + 1 / 2)"
proof -
  have e: "of_int (2 * k + 1) * (2::rat) powi (- 1) = of_int k + 1 / 2"
    by (simp add: field_simps)
  have "round64 (of_int (2 * k + 1) * 2 powi (- 1)) = Fin (of_int (2 * k + 1) * 2 powi (- 1))"
    using assms by (intro round64_exact) simp_all
  then show ?thesis unfolding e .
qed


lemma round64_pos_cases:
  assumes "0 < q"
  obtains "round64 q = PosInf" | "round64 q = Fin 0"
  | "round64 q = Fin (nearest q)" "0 < nearest q" "nearest q < 2 powi 1024"
proof (cases "2 powi 1024 \<le> nearest q")
  case True
  then have "round64 q = PosInf" by (simp only: round64_pos[OF assms] if_True)
  then show ?thesis by (rule that(1))
next
  case False
  show ?thesis
  proof (cases "nearest q = 0")
    case True
    with False have "round64 q = Fin 0" by (simp add: round64_pos[OF assms])
    then show ?thesis by (rule that(2))
  next
    case nz: False
    with False have "round64 q = Fin (nearest q)"
      by (simp add: round64_pos[OF assms])
    moreover have "0 < nearest q" using nearest_nonneg[OF assms] nz by simp
    moreover have "nearest q < 2 powi 1024" using False by simp
    ultimately show ?thesis by (rule that(3))
  qed
qed


lemma ulp_le:
  assumes "0 < a"
  shows "ulp a \<le> a * 2 powi (- 52) + 2 powi (- 1074)"
proof (cases "- 1022 \<le> ilog2 a")
  case True
  then have "bexp a = ilog2 a" by (simp add: bexp_def)
  then have "ulp a = 2 powi (ilog2 a + (- 52))" by (simp add: ulp_bexp)
  also have "\<dots> = 2 powi (ilog2 a) * 2 powi (- 52)"
    by (subst power_int_add) simp_all
  also have "\<dots> \<le> a * 2 powi (- 52)"
    using ilog2_bounds[OF assms] by (intro mult_right_mono) simp_all
  finally show ?thesis using two_powi_pos[of "- 1074"] by linarith
next
  case False
  then have "bexp a = - 1022" by (simp add: bexp_def)
  then have "ulp a = 2 powi (- 1074)" by (simp add: ulp_bexp)
  moreover have "0 \<le> a * 2 powi (- 52)" using assms by simp
  ultimately show ?thesis by linarith
qed


section \<open>Parsing keeps the two series aligned\<close>

lemma js_split_nonempty: "js_split sep s \<noteq> []"
  by (induction s) (auto split: list.splits)

lemma foldl_pushLine_fullData:
  "fullData (foldl pushLine s ls) = fullData s @ map parseLine ls"
  by (induction ls arbitrary: s) (simp_all add: pushLine_def Let_def)

lemma foldl_pushLine_closingPrices:
  "closingPrices (foldl pushLine s ls) = closingPrices s @ map (closingOf \<circ> parseLine) ls"
  by (induction ls arbitrary: s) (simp_all add: pushLine_def Let_def closingOf_def)

text \<open>
  C10. After \<^verbatim>\<open>processCSVData\<close> on a new chart, \<open>fullData\<close> holds one record per line
  after the header, in the order of the lines, and \<open>closingPrices\<close> holds the date and the
  close of each of these records at the same index: the two arrays have the same length,
  the same dates and the same closes.
\<close>

theorem processCSVData_aligned:
  "fullData (processCSVData (newChart w h) csvData)
     = map parseLine (drop 1 (js_split CHR 0x0A (trim csvData)))
   \<and> closingPrices (processCSVData (newChart w h) csvData)
     = map closingOf (fullData (processCSVData (newChart w h) csvData))
   \<and> length (closingPrices (processCSVData (newChart w h) csvData))
     = length (fullData (processCSVData (newChart w h) csvData))
   \<and> map cp_date (closingPrices (processCSVData (newChart w h) csvData))
     = map date (fullData (processCSVData (newChart w h) csvData))
   \<and> map cp_close (closingPrices (processCSVData (newChart w h) csvData))
     = map close (fullData (processCSVData (newChart w h) csvData))"
  by (simp add: processCSVData_def foldl_pushLine_fullData foldl_pushLine_closingPrices
      newChart_def closingOf_def comp_def)

section \<open>The moving average\<close>

lemma maStep_eq:
  "maStep cps acc i =
     (if period - 1 \<le> i
      then acc @ [\<lparr>ma_date = cp_date (cps ! i),
                   avg = fdiv (foldl addClose (Fin 0) (js_slice (i - (period - 1)) (i + 1) cps))
                           (ofNat period)\<rparr>]
      else acc)"
  by (simp add: maStep_def Let_def)

lemma foldl_maStep:
  "foldl (maStep cps) acc [0..<n] = acc @ map (\<lambda>i. last (maStep cps [] i)) [period - 1..<n]"
  by (induction n) (simp_all add: maStep_eq)

lemma slice_window:
  assumes "i + n \<le> length xs"
  shows "js_slice i (i + n) xs = map (\<lambda>k. xs ! (i + k)) [0..<n]"
  using assms by (auto simp: js_slice_def intro!: nth_equalityI)

lemma foldl_addClose:
  "foldl addClose z (map f ks) = foldl fadd z (map (\<lambda>k. toNumber (cp_close (f k))) ks)"
  by (induction ks arbitrary: z) (simp_all add: addClose_def)

lemma maStep_avg:
  assumes "i + 19 < length cps"
  shows "last (maStep cps [] (i + 19))
           = \<lparr>ma_date = cp_date (cps ! (i + 19)),
              avg = fdiv (foldl fadd (Fin 0)
                            (map (\<lambda>k. toNumber (cp_close (cps ! (i + k)))) [0..<20]))
                      (Fin 20)\<rparr>"
proof -
  have "js_slice i (i + 20) cps = map (\<lambda>k. cps ! (i + k)) [0..<20]"
    using assms by (intro slice_window) simp
  moreover have "i + 19 - (period - 1) = i" "i + 19 + 1 = i + 20" "period - 1 \<le> i + 19"
    by (simp_all add: period_def)
  ultimately show ?thesis
    unfolding maStep_eq
    by (simp only: foldl_addClose) (simp add: period_def ofNat_def)
qed

lemma movingAverage_nth:
  assumes "movingAverage s = []" "i < length (closingPrices s) - 19"
  shows "movingAverage (calculateMovingAverage s) ! i
           = \<lparr>ma_date = cp_date (closingPrices s ! (i + 19)),
              avg = fdiv (foldl fadd (Fin 0)
                            (map (\<lambda>k. toNumber (cp_close (closingPrices s ! (i + k)))) [0..<20]))
                      (Fin 20)\<rparr>"
proof -
  let ?cps = "closingPrices s"
  have ma: "movingAverage (calculateMovingAverage s)
              = map (\<lambda>i. last (maStep ?cps [] i)) [19..<length ?cps]"
    using assms(1) by (simp add: calculateMovingAverage_def foldl_maStep period_def)
  have "movingAverage (calculateMovingAverage s) ! i = last (maStep ?cps [] (i + 19))"
    using assms(2) by (simp add: ma add.commute)
  moreover have "i + 19 < length ?cps" using assms(2) by simp
  ultimately show ?thesis by (simp only: maStep_avg)
qed

lemma length_movingAverage:
  assumes "movingAverage s = []"
  shows "length (movingAverage (calculateMovingAverage s)) = length (closingPrices s) - 19"
  using assms by (simp add: calculateMovingAverage_def foldl_maStep period_def)

lemma add_step:
  assumes c: "2 powi (- 1000) \<le> c" "c \<le> 2 powi 1000"
    and S: "0 \<le> S" "S \<le> of_nat k * 2 powi 1000" and k: "k < 32"
    and v: "0 \<le> v" "\<bar>v - S\<bar> \<le> S * (of_nat k * 2 powi (- 52))"
  obtains v' where "fadd (Fin v) (Fin c) = Fin v'" "0 < v'"
    "\<bar>v' - (S + c)\<bar> \<le> (S + c) * (of_nat (Suc k) * 2 powi (- 52))"
proof -
  define B :: rat where "B = 2 powi 1000"
  define d :: rat where "d = 2 powi (- 52)"
  have d: "0 < d" "d * 32 \<le> 1" "2 powi (- 53) = d / 2" by (simp_all add: d_def)
  have B: "0 < B" "128 * B < 2 powi 1023" by (simp_all add: B_def)
  have c0: "0 < c" using c(1) two_powi_pos[of "- 1000"] by linarith
  have kk: "(of_nat k :: rat) \<le> 32" using k by simp
  have k0: "(0::rat) \<le> of_nat k" by simp
  have kd: "of_nat k * d \<le> 1"
  proof -
    have "of_nat k * d \<le> 32 * d" using kk d(1) by (intro mult_right_mono) simp_all
    then show ?thesis using d(2) by simp
  qed
  have kd0: "0 \<le> of_nat k * d" using d(1) by simp
  have vS: "\<bar>v - S\<bar> \<le> S * (of_nat k * d)" using v(2) by (simp add: d_def)
  have SS: "S * (of_nat k * d) \<le> S" using S(1) kd by (simp add: mult_left_le)
  have v2: "v \<le> 2 * S" using vS SS by linarith
  define a where "a = v + c"
  have a1: "2 powi (- 1022) \<le> a"
  proof -
    have "(2::rat) powi (- 1022) \<le> 2 powi (- 1000)" by (simp only: two_powi_le)
    then show ?thesis using c(1) v(1) by (simp add: a_def)
  qed
  have a2: "a \<le> 2 * (S + c)" using v2 c0 by (simp add: a_def)
  have "S \<le> 32 * B"
  proof -
    have "of_nat k * B \<le> 32 * B" using kk B(1) by (intro mult_right_mono) simp_all
    then show ?thesis using S(2) by (simp add: B_def)
  qed
  then have "a \<le> 2 * (32 * B + B)" using a2 c(2) by (simp add: B_def)
  then have "a \<le> 128 * B" using B(1) by simp
  then have a3: "a < 2 powi 1023" using B(2) by (rule le_less_trans)
  from round64_error[OF a1 a3] obtain v' where
    v': "round64 a = Fin v'" "\<bar>v' - a\<bar> \<le> a * 2 powi (- 53)" "0 < v'" by blast
  have e1: "a * 2 powi (- 53) \<le> (S + c) * d"
  proof -
    have x: "a * (d / 2) \<le> (2 * (S + c)) * (d / 2)"
      using a2 d(1) by (intro mult_right_mono) simp_all
    have y: "(2 * (S + c)) * (d / 2) = (S + c) * d" by simp
    show ?thesis unfolding d(3) using x unfolding y .
  qed
  have e2: "S * (of_nat k * d) \<le> (S + c) * (of_nat k * d)"
    using c0 kd0 by (intro mult_right_mono) simp_all
  have "\<bar>v' - (S + c)\<bar> \<le> \<bar>v' - a\<bar> + \<bar>v - S\<bar>" by (simp add: a_def)
  also have "\<dots> \<le> (S + c) * d + (S + c) * (of_nat k * d)"
    using v'(2) e1 vS e2 by linarith
  also have "\<dots> = (S + c) * (of_nat (Suc k) * d)" by (simp add: algebra_simps)
  finally have "\<bar>v' - (S + c)\<bar> \<le> (S + c) * (of_nat (Suc k) * 2 powi (- 52))"
    by (simp add: d_def)
  moreover have "fadd (Fin v) (Fin c) = Fin v'" using v'(1) by (simp add: fadd_Fin a_def)
  ultimately show ?thesis using that v'(3) by blast
qed

lemma sum_steps:
  assumes "\<forall>c \<in> set cs. 2 powi (- 1000) \<le> c \<and> c \<le> 2 powi 1000"
    and "0 \<le> S" "S \<le> of_nat k * 2 powi 1000" "k + length cs \<le> 32"
    and "0 \<le> v" "\<bar>v - S\<bar> \<le> S * (of_nat k * 2 powi (- 52))"
  shows "\<exists>v'. foldl fadd (Fin v) (map Fin cs) = Fin v' \<and> 0 \<le> v'
           \<and> \<bar>v' - (S + sum_list cs)\<bar>
               \<le> (S + sum_list cs) * (of_nat (k + length cs) * 2 powi (- 52))"
  using assms
proof (induction cs arbitrary: S k v)
  case Nil
  then show ?case by simp
next
  case (Cons c cs)
  have c: "2 powi (- 1000) \<le> c" "c \<le> 2 powi 1000" using Cons.prems(1) by simp_all
  have k: "k < 32" using Cons.prems(4) by simp
  from add_step[OF c Cons.prems(2,3) k Cons.prems(5,6)] obtain v1 where
    v1: "fadd (Fin v) (Fin c) = Fin v1" "0 < v1"
      "\<bar>v1 - (S + c)\<bar> \<le> (S + c) * (of_nat (Suc k) * 2 powi (- 52))" by blast
  have c0: "0 < c" using c(1) two_powi_pos[of "- 1000"] by linarith
  have S1: "0 \<le> S + c" using Cons.prems(2) c0 by simp
  have S2: "S + c \<le> of_nat (Suc k) * 2 powi 1000"
    using Cons.prems(3) c(2) by (simp add: algebra_simps)
  have r: "\<forall>c \<in> set cs. 2 powi (- 1000) \<le> c \<and> c \<le> 2 powi 1000"
    using Cons.prems(1) by simp
  have l: "Suc k + length cs \<le> 32" using Cons.prems(4) by simp
  have v10: "0 \<le> v1" using v1(2) by simp
  from Cons.IH[OF r S1 S2 l v10 v1(3)] obtain v' where
    "foldl fadd (Fin v1) (map Fin cs) = Fin v'" "0 \<le> v'"
    "\<bar>v' - (S + c + sum_list cs)\<bar>
       \<le> (S + c + sum_list cs) * (of_nat (Suc k + length cs) * 2 powi (- 52))" by blast
  then show ?case using v1(1) by (simp add: add.assoc)
qed

lemma sum_list_bounds:
  assumes "\<forall>c \<in> set cs. (lo::rat) \<le> c \<and> c \<le> hi"
  shows "of_nat (length cs) * lo \<le> sum_list cs \<and> sum_list cs \<le> of_nat (length cs) * hi"
  using assms by (induction cs) (auto simp: algebra_simps)

lemma mean_error:
  assumes "length cs = 20" "\<forall>c \<in> set cs. 2 powi (- 1000) \<le> c \<and> c \<le> 2 powi 1000"
  shows "\<exists>v. fdiv (foldl fadd (Fin 0) (map Fin cs)) (Fin 20) = Fin v
           \<and> \<bar>v - arithmeticMean cs\<bar> \<le> arithmeticMean cs / 2 ^ 47"
proof -
  define S where "S = sum_list cs"
  define d :: rat where "d = 2 powi (- 52)"
  have d: "0 < d" "20 * d \<le> 1 / 2" "2 powi (- 53) = d / 2" "d * 32 = 1 / 2 ^ 47"
    by (simp_all add: d_def)
  have "\<exists>v'. foldl fadd (Fin 0) (map Fin cs) = Fin v' \<and> 0 \<le> v'
           \<and> \<bar>v' - (0 + sum_list cs)\<bar>
               \<le> (0 + sum_list cs) * (of_nat (0 + length cs) * 2 powi (- 52))"
    using assms by (intro sum_steps) simp_all
  then obtain w where w: "foldl fadd (Fin 0) (map Fin cs) = Fin w" "0 \<le> w"
    "\<bar>w - S\<bar> \<le> S * (20 * d)"
    using assms(1) by (auto simp: S_def d_def)
  have Sb: "20 * 2 powi (- 1000) \<le> S" "S \<le> 20 * 2 powi 1000"
    using sum_list_bounds[OF assms(2)] assms(1) by (simp_all add: S_def)
  have S0: "0 < S" using Sb(1) two_powi_pos[of "- 1000"] by linarith
  have "S * (20 * d) \<le> S * (1 / 2)" using d(2) S0 by (intro mult_left_mono) simp_all
  then have h: "S * (20 * d) \<le> S / 2" by simp
  have wS: "S / 2 \<le> w" "w \<le> 2 * S" using w(3) h S0 by linarith+
  have w0: "w \<noteq> 0" using wS(1) S0 by auto
  have q1: "2 powi (- 1022) \<le> w / 20"
  proof -
    have "(2::rat) powi (- 1022) \<le> 2 powi (- 1000) / 2" by simp
    also have "\<dots> \<le> w / 20" using wS(1) Sb(1) by simp
    finally show ?thesis .
  qed
  have q2: "w / 20 < 2 powi 1023"
  proof -
    have "w / 20 \<le> 2 * 2 powi 1000" using wS(2) Sb(2) by simp
    also have "\<dots> < (2::rat) powi 1023" by simp
    finally show ?thesis .
  qed
  from round64_error[OF q1 q2] obtain v where
    v: "round64 (w / 20) = Fin v" "\<bar>v - w / 20\<bar> \<le> w / 20 * 2 powi (- 53)" by blast
  have m: "arithmeticMean cs = S / 20" by (simp add: arithmeticMean_def S_def assms(1))
  have e1: "w / 20 * 2 powi (- 53) \<le> S / 20 * d"
  proof -
    have x: "w / 20 * (d / 2) \<le> (2 * S) / 20 * (d / 2)"
      using wS(2) d(1) by (intro mult_right_mono divide_right_mono) simp_all
    have y: "(2 * S) / 20 * (d / 2) = S / 20 * d" by simp
    show ?thesis unfolding d(3) using x unfolding y .
  qed
  have e2: "\<bar>w / 20 - S / 20\<bar> \<le> S / 20 * (20 * d)"
  proof -
    have "\<bar>w / 20 - S / 20\<bar> = \<bar>w - S\<bar> / 20" by (simp add: diff_divide_distrib[symmetric])
    also have "\<dots> \<le> S * (20 * d) / 20" using w(3) by (intro divide_right_mono) simp_all
    finally show ?thesis by simp
  qed
  have "\<bar>v - S / 20\<bar> \<le> \<bar>v - w / 20\<bar> + \<bar>w / 20 - S / 20\<bar>" by simp
  also have "\<dots> \<le> S / 20 * d + S / 20 * (20 * d)" using v(2) e1 e2 by linarith
  also have "\<dots> = S / 20 * (21 * d)" by (simp add: algebra_simps)
  also have "\<dots> \<le> S / 20 * (32 * d)" using S0 d(1) by (intro mult_left_mono) simp_all
  also have "\<dots> = S / 20 / 2 ^ 47" using d(4) by (simp add: mult.commute)
  finally have "\<bar>v - arithmeticMean cs\<bar> \<le> arithmeticMean cs / 2 ^ 47" by (simp only: m)
  moreover have "fdiv (Fin w) (Fin 20) = Fin v" using v(1) w0 by (simp add: fdiv_Fin)
  ultimately show ?thesis using w(1) by simp
qed


lemma sum_exact:
  assumes "\<forall>k \<le> length cs. binary64 (a + sum_list (take k cs))"
  shows "foldl fadd (Fin a) (map Fin cs) = Fin (a + sum_list cs)"
  using assms
proof (induction cs arbitrary: a)
  case Nil
  then show ?case by simp
next
  case (Cons c cs)
  from Cons.prems have "1 \<le> length (c # cs) \<longrightarrow> binary64 (a + sum_list (take 1 (c # cs)))"
    by (rule spec)
  then have "binary64 (a + c)" by simp
  then have s: "fadd (Fin a) (Fin c) = Fin (a + c)" by (simp add: fadd_Fin binary64_def)
  have "\<forall>k \<le> length cs. binary64 (a + c + sum_list (take k cs))"
  proof (intro allI impI)
    fix k assume "k \<le> length cs"
    then have "Suc k \<le> length (c # cs)" by simp
    with Cons.prems have "binary64 (a + sum_list (take (Suc k) (c # cs)))" by blast
    then show "binary64 (a + c + sum_list (take k cs))" by (simp add: add.assoc)
  qed
  from Cons.IH[OF this] show ?case using s by (simp add: add.assoc)
qed

lemma mean_exact:
  assumes "length cs = 20" "\<forall>k \<le> 20. binary64 (sum_list (take k cs))"
    and "binary64 (arithmeticMean cs)"
  shows "fdiv (foldl fadd (Fin 0) (map Fin cs)) (Fin 20) = Fin (arithmeticMean cs)"
proof -
  have "foldl fadd (Fin 0) (map Fin cs) = Fin (0 + sum_list cs)"
    using assms(1,2) by (intro sum_exact) simp
  then have f: "foldl fadd (Fin 0) (map Fin cs) = Fin (sum_list cs)" by simp
  have m: "arithmeticMean cs = sum_list cs / 20" by (simp add: arithmeticMean_def assms(1))
  show ?thesis
  proof (cases "sum_list cs = 0")
    case True
    then show ?thesis
      by (simp add: f m fdiv_def isInf_def isZero_def isNeg_def signedZero_def)
  next
    case False
    then have "fdiv (Fin (sum_list cs)) (Fin 20) = round64 (sum_list cs / 20)"
      by (simp add: fdiv_Fin)
    then show ?thesis using assms(3) by (simp add: f m binary64_def)
  qed
qed

lemma window_closes:
  assumes "length cs = 20" "\<forall>k < 20. cp_close (cps ! (i + k)) = Num (Fin (cs ! k))"
  shows "map (\<lambda>k. toNumber (cp_close (cps ! (i + k)))) [0..<20] = map Fin cs"
  using assms by (intro nth_equalityI) simp_all

lemma sum_list_take_le: "sum_list (take k xs) \<le> sum_list (xs :: nat list)"
proof -
  have "sum_list (take k xs) + sum_list (drop k xs) = sum_list xs"
    by (simp only: sum_list_append[symmetric] append_take_drop_id)
  then show ?thesis by linarith
qed

lemma sum_list_of_nat: "sum_list (map of_nat xs) = (of_nat (sum_list xs) :: rat)"
  by (induction xs) simp_all

lemma binary64_sum_nat:
  assumes "sum_list xs < 2 ^ 53"
  shows "binary64 (sum_list (take k (map of_nat xs)))"
proof -
  have "sum_list (take k (map of_nat xs)) = (of_nat (sum_list (take k xs)) :: rat)"
    by (simp only: take_map sum_list_of_nat)
  moreover have "sum_list (take k xs) < 2 ^ 53"
    using sum_list_take_le[of k xs] assms by linarith
  ultimately show ?thesis by (simp add: binary64_def round64_of_nat)
qed

lemma foldl_replicate_Suc: "foldl f a (replicate (Suc n) x) = foldl f (f a x) (replicate n x)"
  by simp

text \<open>
  C1, as the code has it. On a chart whose \<open>movingAverage\<close> is still empty,
  \<^verbatim>\<open>calculateMovingAverage\<close> leaves \<open>max 0 (N - 19)\<close> points, \<open>N\<close> the number of
  closing prices. Point \<open>i\<close> carries the date of the closing price at index \<open>i + 19\<close>. Its
  value is the Number that adding the closes at the indices \<open>i, \<dots>, i + 19\<close> to \<open>+0\<close>, in
  this order, and dividing by \<open>20\<close> gives. When these closes are finite, the value is their
  arithmetic mean if every running sum and the mean are binary64 values, and it is within
  the relative error \<open>2 powi -47\<close> of their arithmetic mean if they lie between
  \<open>2 powi -1000\<close> and \<open>2 powi 1000\<close>.
\<close>

theorem calculateMovingAverage_window:
  assumes "movingAverage s = []"
  shows "length (movingAverage (calculateMovingAverage s)) = length (closingPrices s) - 19
    \<and> (\<forall>i < length (closingPrices s) - 19.
          ma_date (movingAverage (calculateMovingAverage s) ! i)
            = cp_date (closingPrices s ! (i + 19))
        \<and> avg (movingAverage (calculateMovingAverage s) ! i)
            = fdiv (foldl fadd (Fin 0)
                      (map (\<lambda>k. toNumber (cp_close (closingPrices s ! (i + k)))) [0..<20]))
                (Fin 20)
        \<and> (\<forall>cs. length cs = 20
                 \<and> (\<forall>k < 20. cp_close (closingPrices s ! (i + k)) = Num (Fin (cs ! k)))
              \<longrightarrow> ((\<forall>k \<le> 20. binary64 (sum_list (take k cs))) \<and> binary64 (arithmeticMean cs)
                    \<longrightarrow> avg (movingAverage (calculateMovingAverage s) ! i)
                          = Fin (arithmeticMean cs))
                \<and> ((\<forall>c \<in> set cs. 2 powi (- 1000) \<le> c \<and> c \<le> 2 powi 1000)
                    \<longrightarrow> (\<exists>v. avg (movingAverage (calculateMovingAverage s) ! i) = Fin v
                             \<and> \<bar>v - arithmeticMean cs\<bar> \<le> arithmeticMean cs / 2 ^ 47))))"
proof (intro conjI allI impI)
  show "length (movingAverage (calculateMovingAverage s)) = length (closingPrices s) - 19"
    using assms by (rule length_movingAverage)
next
  fix i assume i: "i < length (closingPrices s) - 19"
  note n = movingAverage_nth[OF assms i]
  show "ma_date (movingAverage (calculateMovingAverage s) ! i)
            = cp_date (closingPrices s ! (i + 19))"
    by (simp add: n)
  show "avg (movingAverage (calculateMovingAverage s) ! i)
            = fdiv (foldl fadd (Fin 0)
                      (map (\<lambda>k. toNumber (cp_close (closingPrices s ! (i + k)))) [0..<20]))
                (Fin 20)"
    by (simp add: n)
  fix cs
  assume cs: "length cs = 20
       \<and> (\<forall>k < 20. cp_close (closingPrices s ! (i + k)) = Num (Fin (cs ! k)))"
  then have w: "map (\<lambda>k. toNumber (cp_close (closingPrices s ! (i + k)))) [0..<20] = map Fin cs"
    by (intro window_closes) simp_all
  have a: "avg (movingAverage (calculateMovingAverage s) ! i)
      = fdiv (foldl fadd (Fin 0) (map Fin cs)) (Fin 20)"
    by (simp only: n w) simp
  {
    assume "(\<forall>k \<le> 20. binary64 (sum_list (take k cs))) \<and> binary64 (arithmeticMean cs)"
    then show "avg (movingAverage (calculateMovingAverage s) ! i) = Fin (arithmeticMean cs)"
      using cs by (simp only: a) (intro mean_exact, simp_all)
  }
  {
    assume "\<forall>c \<in> set cs. 2 powi (- 1000) \<le> c \<and> c \<le> 2 powi 1000"
    then show "\<exists>v. avg (movingAverage (calculateMovingAverage s) ! i) = Fin v
                  \<and> \<bar>v - arithmeticMean cs\<bar> \<le> arithmeticMean cs / 2 ^ 47"
      using cs unfolding a by (intro mean_error) simp_all
  }
qed

theorem calculateMovingAverage_window_witness:
  "(let s = (newChart (Fin 800) (Fin 600))
              \<lparr>closingPrices :=
                 map (\<lambda>i. \<lparr>cp_date = replicate i CHR ''d'', cp_close = Num (Fin (of_nat i))\<rparr>)
                   [0..<21]\<rparr>
    in movingAverage s = []
     \<and> 1 < length (closingPrices s) - 19
     \<and> length (movingAverage (calculateMovingAverage s)) = 2
     \<and> ma_date (movingAverage (calculateMovingAverage s) ! 1) = replicate 20 CHR ''d''
     \<and> arithmeticMean (map of_nat [1..<21]) = 21 / 2
     \<and> avg (movingAverage (calculateMovingAverage s) ! 1) = Fin (21 / 2))"
proof -
  define s where "s = (newChart (Fin 800) (Fin 600))
              \<lparr>closingPrices :=
                 map (\<lambda>i. \<lparr>cp_date = replicate i CHR ''d'', cp_close = Num (Fin (of_nat i))\<rparr>)
                   [0..<21]\<rparr>"
  define cs :: "rat list" where "cs = map of_nat [1..<21]"
  have h1: "movingAverage s = []" by (simp add: s_def newChart_def)
  have h2: "1 < length (closingPrices s) - 19" by (simp add: s_def)
  have h3: "length cs = 20"
    "\<forall>k < 20. cp_close (closingPrices s ! (1 + k)) = Num (Fin (cs ! k))"
    by (simp_all add: s_def cs_def)
  have su: "sum_list [1..<21] = (210 :: nat)"
    by (simp add: upt_rec[of _ "numeral _"] upt_rec[of _ "Suc _"] eval_nat_numeral)
  have h4: "\<forall>k \<le> 20. binary64 (sum_list (take k cs))"
    unfolding cs_def by (intro allI impI binary64_sum_nat) (simp only: su, simp)
  have "sum_list cs = of_nat (sum_list [1..<21])"
    unfolding cs_def by (simp only: sum_list_of_nat)
  then have "sum_list cs = 210" by (simp only: su of_nat_numeral)
  then have m: "arithmeticMean cs = 21 / 2"
    by (simp add: arithmeticMean_def h3(1))
  have h5: "binary64 (arithmeticMean cs)"
    unfolding m binary64_def using round64_exact[of 21 "- 1"] by simp
  note T = calculateMovingAverage_window[OF h1]
  have l: "length (closingPrices s) = 21" by (simp add: s_def)
  have d: "cp_date (closingPrices s ! (1 + 19)) = replicate 20 CHR ''d''" by (simp add: s_def)
  have r1: "length (movingAverage (calculateMovingAverage s)) = 2"
    using T[THEN conjunct1] l by simp
  have r2: "ma_date (movingAverage (calculateMovingAverage s) ! 1)
      = cp_date (closingPrices s ! (1 + 19))"
    using T h2 by blast
  have r3: "avg (movingAverage (calculateMovingAverage s) ! 1) = Fin (arithmeticMean cs)"
    using T h2 h3 h4 h5 by blast
  show ?thesis
    unfolding Let_def s_def[symmetric] cs_def[symmetric]
    using h1 h2 r1 r2 r3 m d by simp
qed

text \<open>
  Twenty closes of \<^verbatim>\<open>0.1\<close>: their arithmetic mean is the close itself, and the moving
  average is the next binary64 value above it, \<^verbatim>\<open>0.10000000000000002\<close>.
\<close>

theorem movingAverage_mean_counterexample:
  "parseFloat ''0.1'' = Fin (3602879701896397 / 36028797018963968)
   \<and> avg (movingAverage (calculateMovingAverage
        ((newChart (Fin 800) (Fin 600))
           \<lparr>closingPrices :=
              replicate 20 \<lparr>cp_date = ''2024-01-02'', cp_close = Num (Fin (3602879701896397 / 36028797018963968))\<rparr>\<rparr>)) ! 0)
      = Fin (7205759403792795 / 72057594037927936)
   \<and> arithmeticMean (replicate 20 (3602879701896397 / 36028797018963968)) = 3602879701896397 / 36028797018963968
   \<and> Fin (7205759403792795 / 72057594037927936) \<noteq> Fin (3602879701896397 / 36028797018963968)"
proof -
  let ?s = "(newChart (Fin 800) (Fin 600))
           \<lparr>closingPrices :=
              replicate 20 \<lparr>cp_date = ''2024-01-02'', cp_close = Num (Fin (3602879701896397 / 36028797018963968))\<rparr>\<rparr>"
  have a0: "round64 (3602879701896397 / 36028797018963968) = Fin (3602879701896397 / 36028797018963968)"
    using round64_eval_pos_rne[of "- 4" "3602879701896397 / 36028797018963968"] by (simp add: rne_def Let_def floor_numeral_div)
  have a1: "round64 (3602879701896397 / 18014398509481984) = Fin (3602879701896397 / 18014398509481984)"
    using round64_eval_pos_rne[of "- 3" "3602879701896397 / 18014398509481984"] by (simp add: rne_def Let_def floor_numeral_div)
  have a2: "round64 (10808639105689191 / 36028797018963968) = Fin (1351079888211149 / 4503599627370496)"
    using round64_eval_pos_rne[of "- 2" "10808639105689191 / 36028797018963968"] by (simp add: rne_def Let_def floor_numeral_div)
  have a3: "round64 (14411518807585589 / 36028797018963968) = Fin (3602879701896397 / 9007199254740992)"
    using round64_eval_pos_rne[of "- 2" "14411518807585589 / 36028797018963968"] by (simp add: rne_def Let_def floor_numeral_div)
  have a4: "round64 (18014398509481985 / 36028797018963968) = Fin (1 / 2)"
    using round64_eval_pos_rne[of "- 1" "18014398509481985 / 36028797018963968"] by (simp add: rne_def Let_def floor_numeral_div)
  have a5: "round64 (21617278211378381 / 36028797018963968) = Fin (5404319552844595 / 9007199254740992)"
    using round64_eval_pos_rne[of "- 1" "21617278211378381 / 36028797018963968"] by (simp add: rne_def Let_def floor_numeral_div)
  have a6: "round64 (25220157913274777 / 36028797018963968) = Fin (3152519739159347 / 4503599627370496)"
    using round64_eval_pos_rne[of "- 1" "25220157913274777 / 36028797018963968"] by (simp add: rne_def Let_def floor_numeral_div)
  have a7: "round64 (28823037615171173 / 36028797018963968) = Fin (7205759403792793 / 9007199254740992)"
    using round64_eval_pos_rne[of "- 1" "28823037615171173 / 36028797018963968"] by (simp add: rne_def Let_def floor_numeral_div)
  have a8: "round64 (32425917317067569 / 36028797018963968) = Fin (2026619832316723 / 2251799813685248)"
    using round64_eval_pos_rne[of "- 1" "32425917317067569 / 36028797018963968"] by (simp add: rne_def Let_def floor_numeral_div)
  have a9: "round64 (36028797018963965 / 36028797018963968) = Fin (9007199254740991 / 9007199254740992)"
    using round64_eval_pos_rne[of "- 1" "36028797018963965 / 36028797018963968"] by (simp add: rne_def Let_def floor_numeral_div)
  have a10: "round64 (39631676720860361 / 36028797018963968) = Fin (4953959590107545 / 4503599627370496)"
    using round64_eval_pos_rne[of 0 "39631676720860361 / 36028797018963968"] by (simp add: rne_def Let_def floor_numeral_div)
  have a11: "round64 (43234556422756757 / 36028797018963968) = Fin (5404319552844595 / 4503599627370496)"
    using round64_eval_pos_rne[of 0 "43234556422756757 / 36028797018963968"] by (simp add: rne_def Let_def floor_numeral_div)
  have a12: "round64 (46837436124653157 / 36028797018963968) = Fin (5854679515581645 / 4503599627370496)"
    using round64_eval_pos_rne[of 0 "46837436124653157 / 36028797018963968"] by (simp add: rne_def Let_def floor_numeral_div)
  have a13: "round64 (50440315826549557 / 36028797018963968) = Fin (6305039478318695 / 4503599627370496)"
    using round64_eval_pos_rne[of 0 "50440315826549557 / 36028797018963968"] by (simp add: rne_def Let_def floor_numeral_div)
  have a14: "round64 (54043195528445957 / 36028797018963968) = Fin (6755399441055745 / 4503599627370496)"
    using round64_eval_pos_rne[of 0 "54043195528445957 / 36028797018963968"] by (simp add: rne_def Let_def floor_numeral_div)
  have a15: "round64 (57646075230342357 / 36028797018963968) = Fin (7205759403792795 / 4503599627370496)"
    using round64_eval_pos_rne[of 0 "57646075230342357 / 36028797018963968"] by (simp add: rne_def Let_def floor_numeral_div)
  have a16: "round64 (61248954932238757 / 36028797018963968) = Fin (7656119366529845 / 4503599627370496)"
    using round64_eval_pos_rne[of 0 "61248954932238757 / 36028797018963968"] by (simp add: rne_def Let_def floor_numeral_div)
  have a17: "round64 (64851834634135157 / 36028797018963968) = Fin (8106479329266895 / 4503599627370496)"
    using round64_eval_pos_rne[of 0 "64851834634135157 / 36028797018963968"] by (simp add: rne_def Let_def floor_numeral_div)
  have a18: "round64 (68454714336031557 / 36028797018963968) = Fin (8556839292003945 / 4503599627370496)"
    using round64_eval_pos_rne[of 0 "68454714336031557 / 36028797018963968"] by (simp add: rne_def Let_def floor_numeral_div)
  have a19: "round64 (72057594037927957 / 36028797018963968) = Fin (4503599627370497 / 2251799813685248)"
    using round64_eval_pos_rne[of 1 "72057594037927957 / 36028797018963968"] by (simp add: rne_def Let_def floor_numeral_div)
  have aq: "round64 (4503599627370497 / 45035996273704960) = Fin (7205759403792795 / 72057594037927936)"
    using round64_eval_pos_rne[of "- 4" "4503599627370497 / 45035996273704960"] by (simp add: rne_def Let_def floor_numeral_div)
  have s0: "fadd (Fin (0)) (Fin (3602879701896397 / 36028797018963968)) = Fin (3602879701896397 / 36028797018963968)"
    by (simp add: fadd_Fin a0)
  have s1: "fadd (Fin (3602879701896397 / 36028797018963968)) (Fin (3602879701896397 / 36028797018963968)) = Fin (3602879701896397 / 18014398509481984)"
    by (simp add: fadd_Fin a1)
  have s2: "fadd (Fin (3602879701896397 / 18014398509481984)) (Fin (3602879701896397 / 36028797018963968)) = Fin (1351079888211149 / 4503599627370496)"
    by (simp add: fadd_Fin a2)
  have s3: "fadd (Fin (1351079888211149 / 4503599627370496)) (Fin (3602879701896397 / 36028797018963968)) = Fin (3602879701896397 / 9007199254740992)"
    by (simp add: fadd_Fin a3)
  have s4: "fadd (Fin (3602879701896397 / 9007199254740992)) (Fin (3602879701896397 / 36028797018963968)) = Fin (1 / 2)"
    by (simp add: fadd_Fin a4)
  have s5: "fadd (Fin (1 / 2)) (Fin (3602879701896397 / 36028797018963968)) = Fin (5404319552844595 / 9007199254740992)"
    by (simp add: fadd_Fin a5)
  have s6: "fadd (Fin (5404319552844595 / 9007199254740992)) (Fin (3602879701896397 / 36028797018963968)) = Fin (3152519739159347 / 4503599627370496)"
    by (simp add: fadd_Fin a6)
  have s7: "fadd (Fin (3152519739159347 / 4503599627370496)) (Fin (3602879701896397 / 36028797018963968)) = Fin (7205759403792793 / 9007199254740992)"
    by (simp add: fadd_Fin a7)
  have s8: "fadd (Fin (7205759403792793 / 9007199254740992)) (Fin (3602879701896397 / 36028797018963968)) = Fin (2026619832316723 / 2251799813685248)"
    by (simp add: fadd_Fin a8)
  have s9: "fadd (Fin (2026619832316723 / 2251799813685248)) (Fin (3602879701896397 / 36028797018963968)) = Fin (9007199254740991 / 9007199254740992)"
    by (simp add: fadd_Fin a9)
  have s10: "fadd (Fin (9007199254740991 / 9007199254740992)) (Fin (3602879701896397 / 36028797018963968)) = Fin (4953959590107545 / 4503599627370496)"
    by (simp add: fadd_Fin a10)
  have s11: "fadd (Fin (4953959590107545 / 4503599627370496)) (Fin (3602879701896397 / 36028797018963968)) = Fin (5404319552844595 / 4503599627370496)"
    by (simp add: fadd_Fin a11)
  have s12: "fadd (Fin (5404319552844595 / 4503599627370496)) (Fin (3602879701896397 / 36028797018963968)) = Fin (5854679515581645 / 4503599627370496)"
    by (simp add: fadd_Fin a12)
  have s13: "fadd (Fin (5854679515581645 / 4503599627370496)) (Fin (3602879701896397 / 36028797018963968)) = Fin (6305039478318695 / 4503599627370496)"
    by (simp add: fadd_Fin a13)
  have s14: "fadd (Fin (6305039478318695 / 4503599627370496)) (Fin (3602879701896397 / 36028797018963968)) = Fin (6755399441055745 / 4503599627370496)"
    by (simp add: fadd_Fin a14)
  have s15: "fadd (Fin (6755399441055745 / 4503599627370496)) (Fin (3602879701896397 / 36028797018963968)) = Fin (7205759403792795 / 4503599627370496)"
    by (simp add: fadd_Fin a15)
  have s16: "fadd (Fin (7205759403792795 / 4503599627370496)) (Fin (3602879701896397 / 36028797018963968)) = Fin (7656119366529845 / 4503599627370496)"
    by (simp add: fadd_Fin a16)
  have s17: "fadd (Fin (7656119366529845 / 4503599627370496)) (Fin (3602879701896397 / 36028797018963968)) = Fin (8106479329266895 / 4503599627370496)"
    by (simp add: fadd_Fin a17)
  have s18: "fadd (Fin (8106479329266895 / 4503599627370496)) (Fin (3602879701896397 / 36028797018963968)) = Fin (8556839292003945 / 4503599627370496)"
    by (simp add: fadd_Fin a18)
  have s19: "fadd (Fin (8556839292003945 / 4503599627370496)) (Fin (3602879701896397 / 36028797018963968)) = Fin (4503599627370497 / 2251799813685248)"
    by (simp add: fadd_Fin a19)
  have sq: "fdiv (Fin (4503599627370497 / 2251799813685248)) (Fin 20) = Fin (7205759403792795 / 72057594037927936)"
    by (simp add: fdiv_Fin aq)
  have p0: "round64 (1 / 10) = Fin (3602879701896397 / 36028797018963968)"
    using round64_eval_pos_rne[of "- 4" "1 / 10"] by (simp add: rne_def Let_def floor_numeral_div)
  have p: "parseFloat ''0.1'' = Fin (3602879701896397 / 36028797018963968)"
    by (simp add: parse_eval p0)
  have m: "arithmeticMean (replicate 20 (3602879701896397 / 36028797018963968)) = 3602879701896397 / 36028797018963968"
    by (simp add: arithmeticMean_def sum_list_replicate)
  have e: "movingAverage ?s = []" "0 < length (closingPrices ?s) - 19"
    by (simp_all add: newChart_def)
  have cl: "map (\<lambda>k. toNumber (cp_close (closingPrices ?s ! (0 + k)))) [0..<20]
      = replicate 20 (Fin (3602879701896397 / 36028797018963968))"
    by (intro nth_equalityI) simp_all
  have f: "foldl fadd (Fin 0) (replicate 20 (Fin (3602879701896397 / 36028797018963968))) = Fin (4503599627370497 / 2251799813685248)"
    by (simp only: eval_nat_numeral BitM.simps foldl_replicate_Suc s0 s1 s2 s3 s4 s5 s6 s7 s8 s9 s10 s11 s12 s13 s14 s15 s16 s17 s18 s19 foldl_Nil replicate_0)
  have "avg (movingAverage (calculateMovingAverage ?s) ! 0) = Fin (7205759403792795 / 72057594037927936)"
    unfolding movingAverage_nth[OF e] by (simp only: cl f sq maPoint.simps)
  then show ?thesis using p m by simp
qed

section \<open>Where the moving average is drawn\<close>

text \<open>
  C5. The vertex that \<^verbatim>\<open>plotMovingAverage\<close> draws for the point at index \<open>j\<close> of
  \<open>movingAverage\<close> (the call after \<^verbatim>\<open>beginPath\<close> and the \<open>j\<close> vertices before it) has
  the x coordinate \<open>padding + j * xScale\<close>: the index \<open>j\<close> of the derived array is used as it
  is, with no offset of \<open>period - 1\<close>.
\<close>

theorem plotMovingAverage_index:
  assumes "j < length (movingAverage s)"
  shows "plotMovingAverage s xs ys height mn ! Suc j
           = (if j = 0 then MoveTo else LineTo)
               (fadd (padding s) (fmul (ofNat j) xs))
               (priceToY s ys height mn (avg (movingAverage s ! j)))"
  using assms
  by (simp add: plotMovingAverage_def nth_append maVertex_def indexToX_def
      nth_enumerate_eq Let_def)

theorem plotMovingAverage_index_witness:
  "(let s = (newChart (Fin 800) (Fin 600))
              \<lparr>movingAverage := [\<lparr>ma_date = ''d20'', avg = Fin 7\<rparr>,
                                 \<lparr>ma_date = ''d21'', avg = Fin 8\<rparr>]\<rparr>
    in 1 < length (movingAverage s)
     \<and> plotMovingAverage s (Fin 2) (Fin 3) (Fin 480) (Fin 1) ! Suc 1
         = LineTo (fadd (Fin 60) (fmul (ofNat 1) (Fin 2)))
                  (priceToY s (Fin 3) (Fin 480) (Fin 1) (Fin 8)))"
  using plotMovingAverage_index
    [of 1 "(newChart (Fin 800) (Fin 600))
              \<lparr>movingAverage := [\<lparr>ma_date = ''d20'', avg = Fin 7\<rparr>,
                                 \<lparr>ma_date = ''d21'', avg = Fin 8\<rparr>]\<rparr>"
       "Fin 2" "Fin 3" "Fin 480" "Fin 1"]
  by (simp add: newChart_def Let_def)

section \<open>The date labels\<close>

lemma dateLabelLoop_stuck:
  assumes "dateLabelLoop s height width i out = Some r"
  shows "\<not> (i < length (fullData s) \<and> length (fullData s) div 10 = 0)"
  using assms
proof (induction arbitrary: r
    rule: dateLabelLoop.raw_induct
      [where ?P = "\<lambda>s height width i out r.
                     \<not> (i < length (fullData s) \<and> length (fullData s) div 10 = 0)",
       rotated -1, consumes 1])
  case (1 dl s height width i out r)
  show ?case
  proof
    assume stuck: "i < length (fullData s) \<and> length (fullData s) div 10 = 0"
    with 1(2) obtain out' where "dl s height width i out' = Some r"
      by (auto split: if_splits)
    from 1(1)[OF this] stuck show False by simp
  qed
qed

lemma dateLabelLoop_returns:
  assumes "0 < length (fullData s) div 10"
  shows "\<exists>r. dateLabelLoop s height width i out = Some r"
  using assms
proof (induction "length (fullData s) - i" arbitrary: i out rule: less_induct)
  case less
  show ?case
  proof (cases "i < length (fullData s)")
    case True
    then have "length (fullData s) - (i + length (fullData s) div 10) < length (fullData s) - i"
      using less.prems by linarith
    from less.hyps[OF this less.prems] show ?thesis
      using True by (subst dateLabelLoop.simps) simp
  next
    case False
    then show ?thesis by (subst dateLabelLoop.simps) simp
  qed
qed

text \<open>With no record, or with ten or more, \<^verbatim>\<open>drawAxisLabels\<close> returns.\<close>

lemma drawAxisLabels_returns:
  assumes "length (fullData s) = 0 \<or> 10 \<le> length (fullData s)"
  shows "\<exists>r. drawAxisLabels s height mx mn width = Some r"
proof (cases "length (fullData s) = 0")
  case True
  then show ?thesis
    unfolding drawAxisLabels_def by (subst dateLabelLoop.simps) simp
next
  case False
  with assms have "0 < length (fullData s) div 10"
    by (simp add: div_greater_zero_iff)
  then show ?thesis
    unfolding drawAxisLabels_def by (rule dateLabelLoop_returns)
qed

text \<open>
  C4. With one to nine records the step \<^verbatim>\<open>Math.floor(this.fullData.length / 10)\<close> is
  \<open>0\<close> and nothing guards the loop: \<^verbatim>\<open>drawAxisLabels\<close> does not return.
\<close>

theorem drawAxisLabels_diverges:
  assumes "0 < length (fullData s)" "length (fullData s) < 10"
  shows "drawAxisLabels s height mx mn width = None"
proof (cases "drawAxisLabels s height mx mn width")
  case None
  then show ?thesis .
next
  case (Some r)
  then show ?thesis
    using dateLabelLoop_stuck[of s height width 0 _ r] assms
    by (simp add: drawAxisLabels_def)
qed

text \<open>A file with a header and five rows: the chart is never drawn.\<close>

theorem drawAxisLabels_diverges_witness:
  "(let s = processCSVData (newChart (Fin 800) (Fin 600))
              (''date,open,high,low,close'' @ CHR 0x0A #
               ''2024-01-02,10,12,9,11'' @ CHR 0x0A #
               ''2024-01-03,11,13,10,12'' @ CHR 0x0A #
               ''2024-01-04,12,14,11,13'' @ CHR 0x0A #
               ''2024-01-05,13,15,12,14'' @ CHR 0x0A #
               ''2024-01-08,14,16,13,15'')
    in length (fullData s) = 5
     \<and> drawAxisLabels s (contentHeight s) (maxPrice s) (minPrice s) (contentWidth s) = None
     \<and> plotChart s = None)"
proof -
  define s where "s = processCSVData (newChart (Fin 800) (Fin 600))
              (''date,open,high,low,close'' @ CHR 0x0A #
               ''2024-01-02,10,12,9,11'' @ CHR 0x0A #
               ''2024-01-03,11,13,10,12'' @ CHR 0x0A #
               ''2024-01-04,12,14,11,13'' @ CHR 0x0A #
               ''2024-01-05,13,15,12,14'' @ CHR 0x0A #
               ''2024-01-08,14,16,13,15'')"
  have n: "length (fullData s) = 5"
    by (simp add: s_def processCSVData_def pushLine_def Let_def newChart_def trim_def
        isWhiteSpace_def)
  have "drawAxisLabels s (contentHeight s) (maxPrice s) (minPrice s) (contentWidth s) = None"
    using drawAxisLabels_diverges[of s] n by simp
  then show ?thesis
    using n unfolding s_def[symmetric] by (simp add: plotChart_def Let_def)
qed

section \<open>A zero price range\<close>





lemma fsub_NaN [simp]: "fsub x NaN = NaN"
  by (simp add: fsub_def fadd_def)












section \<open>Malformed rows\<close>

lemma length_processCSVData:
  "length (fullData (processCSVData s csvData))
     = length (fullData s) + (length (js_split CHR 0x0A (trim csvData)) - 1)"
  by (simp add: processCSVData_def foldl_pushLine_fullData)

lemma numericFields_parseLine:
  assumes "k < 4"
  shows "numericFields (parseLine line) ! k
           = (if k + 1 < length (js_split CHR '','' line)
              then Num (parseFloat (js_split CHR '','' line ! (k + 1))) else Undefined)"
proof (cases "js_split CHR '','' line")
  case Nil
  then show ?thesis by (simp add: js_split_nonempty)
next
  case (Cons f rest)
  from assms consider "k = 0" | "k = 1" | "k = 2" | "k = 3" by linarith
  then show ?thesis
    by cases (simp_all add: numericFields_def parseLine_def Cons element_def Let_def)
qed

lemma date_parseLine: "date (parseLine line) = hd (js_split CHR '','' line)"
  by (cases "js_split CHR '','' line") (simp_all add: parseLine_def js_split_nonempty Let_def)

lemma signedZero_not_NaN [simp]: "signedZero b \<noteq> NaN"
  by (simp add: signedZero_def)

lemma signedInf_not_NaN [simp]: "signedInf b \<noteq> NaN"
  by (simp add: signedInf_def)

lemma not_isDigit_point [simp]: "\<not> isDigit CHR ''.''"
  by (simp add: isDigit_def)

lemma parseUnsigned_NaN: "parseUnsigned neg u = NaN \<longleftrightarrow> \<not> startsNumber u"
proof (cases "take 8 u = ''Infinity''")
  case True
  then show ?thesis by (simp add: parseUnsigned_def startsNumber_def)
next
  case False
  show ?thesis
  proof (cases u)
    case Nil
    then show ?thesis by (simp add: parseUnsigned_def startsNumber_def)
  next
    case (Cons c r)
    show ?thesis
    proof (cases "isDigit c")
      case True
      then show ?thesis
        using False Cons
        by (simp add: parseUnsigned_def startsNumber_def Let_def split: list.splits prod.splits)
    next
      case nd: False
      show ?thesis
      proof (cases "c = CHR ''.''")
        case True
        then show ?thesis
          using False Cons nd
          by (cases r) (simp_all add: parseUnsigned_def startsNumber_def Let_def)
      next
        case np: False
        then show ?thesis
          using False Cons nd
          by (simp add: parseUnsigned_def startsNumber_def Let_def)
      qed
    qed
  qed
qed

lemma parseFloat_NaN: "parseFloat t = NaN \<longleftrightarrow> \<not> hasNumericPrefix t"
  by (simp add: parseFloat_def hasNumericPrefix_def parseUnsigned_NaN split: list.splits)

text \<open>
  C9, as the code has it. \<^verbatim>\<open>processCSVData\<close> never rejects and never skips: the
  records it stores are the records of the lines after the header, one for each line and in
  their order. The record of a line has field \<open>0\<close> of the line as its date; its numeric field
  \<open>k\<close> (open, high, low, close) is \<^verbatim>\<open>parseFloat\<close> of field \<open>k + 1\<close> of the line when
  the line has that field, and \<^verbatim>\<open>undefined\<close> when it has not. So the stored value
  is NaN exactly when the field is there and has no numeric prefix: \<^verbatim>\<open>parseFloat\<close> is
  NaN on the strings with no numeric prefix and on no others.
\<close>

theorem processCSVData_malformed:
  "fullData (processCSVData (newChart w h) csvData)
     = map parseLine (drop 1 (js_split CHR 0x0A (trim csvData)))
   \<and> length (fullData (processCSVData (newChart w h) csvData))
     = length (js_split CHR 0x0A (trim csvData)) - 1
   \<and> (\<forall>line. date (parseLine line) = hd (js_split CHR '','' line))
   \<and> (\<forall>line k. k < 4 \<longrightarrow>
         numericFields (parseLine line) ! k
           = (if k + 1 < length (js_split CHR '','' line)
              then Num (parseFloat (js_split CHR '','' line ! (k + 1))) else Undefined))
   \<and> (\<forall>line k. k < 4 \<longrightarrow>
         (numericFields (parseLine line) ! k = Num NaN
            \<longleftrightarrow> k + 1 < length (js_split CHR '','' line)
               \<and> \<not> hasNumericPrefix (js_split CHR '','' line ! (k + 1))))
   \<and> (\<forall>t. parseFloat t = NaN \<longleftrightarrow> \<not> hasNumericPrefix t)"
proof -
  have "fullData (processCSVData (newChart w h) csvData)
     = map parseLine (drop 1 (js_split CHR 0x0A (trim csvData)))"
    by (simp add: processCSVData_def foldl_pushLine_fullData newChart_def)
  moreover have "length (fullData (processCSVData (newChart w h) csvData))
     = length (js_split CHR 0x0A (trim csvData)) - 1"
    by (simp add: length_processCSVData newChart_def)
  ultimately show ?thesis
    using numericFields_parseLine date_parseLine parseFloat_NaN by simp
qed

theorem processCSVData_malformed_witness:
  "(3::nat) < 4
   \<and> fullData (processCSVData (newChart (Fin 800) (Fin 600))
        (''date,open,high,low,close'' @ CHR 0x0A # ''2024-01-02,10,12,9,n/a'' @ CHR 0x0A #
         ''2024-01-03,10,12,9''))
      = [parseLine ''2024-01-02,10,12,9,n/a'', parseLine ''2024-01-03,10,12,9'']
   \<and> \<not> hasNumericPrefix ''n/a''
   \<and> numericFields (parseLine ''2024-01-02,10,12,9,n/a'') ! 3 = Num NaN
   \<and> numericFields (parseLine ''2024-01-03,10,12,9'') ! 3 = Undefined"
proof -
  have n: "\<not> hasNumericPrefix ''n/a''"
    by (simp add: hasNumericPrefix_def startsNumber_def trimStart_def isWhiteSpace_def
        isDigit_def)
  have "numericFields (parseLine ''2024-01-02,10,12,9,n/a'') ! 3 = Num NaN"
    using processCSVData_malformed[of "Fin 800" "Fin 600" "[]"] n by simp
  moreover have "numericFields (parseLine ''2024-01-03,10,12,9'') ! 3 = Undefined"
    using processCSVData_malformed[of "Fin 800" "Fin 600" "[]"] by simp
  moreover have "fullData (processCSVData (newChart (Fin 800) (Fin 600))
        (''date,open,high,low,close'' @ CHR 0x0A # ''2024-01-02,10,12,9,n/a'' @ CHR 0x0A #
         ''2024-01-03,10,12,9''))
      = [parseLine ''2024-01-02,10,12,9,n/a'', parseLine ''2024-01-03,10,12,9'']"
    using processCSVData_malformed[of "Fin 800" "Fin 600"
        "''date,open,high,low,close'' @ CHR 0x0A # ''2024-01-02,10,12,9,n/a'' @ CHR 0x0A #
         ''2024-01-03,10,12,9''"]
    by (simp add: trim_def isWhiteSpace_def)
  ultimately show ?thesis using n by simp
qed

text \<open>
  A file with two rows: one of five fields whose close field \<^verbatim>\<open>11abc\<close> is not a
  number, and one of four fields. The first close is stored as \<open>11\<close> and the second as
  \<^verbatim>\<open>undefined\<close>: neither is NaN.
\<close>

theorem malformed_row_counterexample:
  "length (js_split CHR '','' ''2024-01-03,10,12,9'') = 4
   \<and> map close (fullData (processCSVData (newChart (Fin 800) (Fin 600))
      (''date,open,high,low,close'' @ CHR 0x0A # ''2024-01-02,10,12,9,11abc'' @ CHR 0x0A #
       ''2024-01-03,10,12,9'')))
     = [Num (Fin 11), Undefined]
   \<and> Num (Fin 11) \<noteq> Num NaN \<and> Undefined \<noteq> Num NaN"
  by (simp add: processCSVData_def pushLine_def trim_def newChart_def parse_eval num_eval)

section \<open>Binary64 values\<close>

lemma binary64_nearest:
  assumes "binary64 a" "0 < a"
  shows "nearest a = a" "a < 2 powi 1024"
proof -
  have "round64 a = Fin a" using assms(1) by (simp add: binary64_def)
  then have "nearest a = a \<and> a < 2 powi 1024"
    using assms(2) by (auto simp: round64_pos split: if_splits)
  then show "nearest a = a" "a < 2 powi 1024" by simp_all
qed

lemma binary64_grid:
  assumes "binary64 a" "0 < a"
  shows "a = of_int (rne (a / ulp a)) * ulp a"
  using binary64_nearest(1)[OF assms] by (simp add: nearest_def)

lemma binary64_numeral: "(numeral n :: int) < 2 ^ 53 \<Longrightarrow> binary64 (numeral n)"
  by (simp add: binary64_def round64_numeral)

lemma below_60_gap:
  assumes "binary64 a" "a < 60"
  shows "a - 60 \<le> - (2 powi (- 47))"
proof (cases "32 \<le> a")
  case False
  then have "a - 60 \<le> - 1" by simp
  moreover have "(2::rat) powi (- 47) \<le> 1" by simp
  ultimately show ?thesis by linarith
next
  case True
  then have a: "0 < a" by simp
  have "ilog2 a = 5" using True assms(2) by (intro ilog2_unique) simp_all
  then have u: "ulp a = 2 powi (- 47)" by (simp add: ulp_bexp bexp_def)
  define k where "k = rne (a / ulp a)"
  have ak: "a = of_int k * 2 powi (- 47)"
    using binary64_grid[OF assms(1) a] by (simp add: k_def u)
  have "of_int k * 2 powi (- 47) < (60::rat)" using assms(2) ak by simp
  then have "(of_int k :: rat) < 60 * 2 ^ 47" by (simp add: field_simps)
  then have "(of_int k :: rat) < of_int (60 * 2 ^ 47)" by simp
  then have "k < 60 * 2 ^ 47" by (simp only: of_int_less_iff)
  then have "k \<le> 60 * 2 ^ 47 - 1" by simp
  then have "(of_int k :: rat) \<le> of_int (60 * 2 ^ 47 - 1)" by (simp only: of_int_le_iff)
  then have "(of_int k :: rat) * 2 powi (- 47) \<le> of_int (60 * 2 ^ 47 - 1) * 2 powi (- 47)"
    by (intro mult_right_mono) simp_all
  also have "\<dots> = 60 - 2 powi (- 47)" by simp
  finally show ?thesis using ak by simp
qed


lemma round64_neg_two_powi:
  assumes "- 1074 \<le> k" "k \<le> 971"
  shows "round64 (- (2 powi k)) = Fin (- (2 powi k))"
  using round64_exact[of "- 1" k] assms by simp

lemma round64_two_powi:
  assumes "- 1074 \<le> k" "k \<le> 971"
  shows "round64 (2 powi k) = Fin (2 powi k)"
  using round64_exact[of 1 k] assms by simp

lemma floorNum_negative:
  assumes "le x (Fin c)" "c < 0"
  shows "\<not> ge (floorNum x) (Fin 0)"
proof -
  from assms(1) consider "x = NegInf" | "x = NegZero" "0 \<le> c" | v where "x = Fin v" "v \<le> c"
    by (auto simp: le_Fin_right)
  then show ?thesis
  proof cases
    case 1 then show ?thesis by (simp add: ge_def)
  next
    case 2 with assms(2) show ?thesis by simp
  next
    case 3
    then have "v < 0" using assms(2) by simp
    then have "\<lfloor>v\<rfloor> < 0" by linarith
    then show ?thesis using 3 by (simp add: ge_def)
  qed
qed

section \<open>The pointer outside the content area\<close>

lemma readout_left:
  assumes "padding s = Fin 60" "binary64 q" "0 < q" "binary64 a" "a < 60"
  shows "readout s (Fin q) (Fin a) = NoPoint"
proof -
  have g: "a - 60 \<le> - (2 powi (- 47))" using assms(4,5) by (rule below_60_gap)
  have "le (round64 (a - 60)) (Fin (- (2 powi (- 47))))"
    using g by (rule round64_le) (rule round64_neg_two_powi; simp)
  then consider "round64 (a - 60) = NegInf"
    | v where "round64 (a - 60) = Fin v" "v \<le> - (2 powi (- 47))"
    by (auto simp: le_Fin_right)
  then have "\<not> ge (dataIndex s (Fin q) (Fin a)) (Fin 0)"
  proof cases
    case 1
    then have "dataIndex s (Fin q) (Fin a) = NegInf"
      using assms(3)
      by (simp add: dataIndex_def assms(1) fsub_Fin fdiv_def isInf_def isNeg_def signedInf_def)
    then show ?thesis by (simp add: ge_def)
  next
    case 2
    have q: "q < 2 powi 1024" using binary64_nearest(2)[OF assms(2,3)] .
    have v0: "v < 0" using 2(2) two_powi_pos[of "- 47"] by linarith
    have "v / q \<le> - (2 powi (- 47)) / q"
      using 2(2) assms(3) by (intro divide_right_mono) simp_all
    moreover have "2 powi (- 47) / 2 powi 1024 \<le> 2 powi (- 47) / q"
      using q assms(3) by (intro divide_left_mono) simp_all
    moreover have "(2::rat) powi (- 47) / 2 powi 1024 = 2 powi (- 1071)"
      by (simp add: power_int_diff[symmetric])
    ultimately have "v / q \<le> - (2 powi (- 1071))" by simp
    then have l: "le (round64 (v / q)) (Fin (- (2 powi (- 1071))))"
      by (rule round64_le) (rule round64_neg_two_powi; simp)
    have "fdiv (Fin v) (Fin q) = round64 (v / q)"
      using v0 assms(3) by (simp add: fdiv_Fin)
    then have "dataIndex s (Fin q) (Fin a) = floorNum (round64 (v / q))"
      by (simp add: dataIndex_def assms(1) fsub_Fin 2(1))
    moreover have "- (2 powi (- 1071)) < (0::rat)" by simp
    ultimately show ?thesis using floorNum_negative[OF l] by simp
  qed
  then show ?thesis by (simp add: readout_def Let_def)
qed

lemma sub60_exact:
  assumes "binary64 a" "60 < a" "a < 2 ^ 53"
  shows "round64 (a - 60) = Fin (a - 60)"
proof -
  have a: "0 < a" using assms(2) by simp
  have "2 powi (ilog2 a) < (2::rat) powi 53"
    using ilog2_bounds[OF a] assms(3) by simp
  then have "ilog2 a < 53" by (simp only: two_powi_less)
  then have b: "bexp a \<le> 52" by (simp add: bexp_def)
  define j where "j = bexp a - 52"
  define n where "n = nat (- j)"
  define k where "k = rne (a / ulp a)"
  have j: "j \<le> 0" "- 1074 \<le> j" using b bexp_ge[of a] by (simp_all add: j_def)
  have u: "ulp a = 2 powi j" by (simp add: ulp_bexp j_def)
  have ak: "a = of_int k * 2 powi j"
    using binary64_grid[OF assms(1) a] by (simp add: k_def u)
  have "(2::rat) powi j = 2 powi (- int n)" using j(1) by (simp add: n_def)
  then have pj: "(2::rat) powi j = inverse (2 ^ n)" by (simp add: power_int_minus)
  then have one: "2 ^ n * (2::rat) powi j = 1" by simp
  have "of_int (60 * 2 ^ n) * (2::rat) powi j = 60 * (2 ^ n * 2 powi j)" by simp
  then have s60: "of_int (60 * 2 ^ n) * (2::rat) powi j = 60" by (simp only: one mult_1_right)
  have d: "a - 60 = of_int (k - 60 * 2 ^ n) * 2 powi j"
    unfolding of_int_diff left_diff_distrib s60 using ak by simp
  have "0 < of_int (k - 60 * 2 ^ n) * (2::rat) powi j" using assms(2) d by simp
  then have "0 < (of_int (k - 60 * 2 ^ n) :: rat)"
    using two_powi_pos[of j] by (simp only: zero_less_mult_pos2)
  then have k1: "0 < k - 60 * 2 ^ n" by (simp only: of_int_0_less_iff)
  have "k \<le> 2 ^ 53" unfolding k_def using a by (rule mant_le)
  moreover have "(0::int) < 60 * 2 ^ n" by simp
  ultimately have k2: "k - 60 * 2 ^ n < 2 ^ 53" by linarith
  have "\<bar>k - 60 * 2 ^ n\<bar> < 2 ^ 53" using k1 k2 by simp
  then have "round64 (of_int (k - 60 * 2 ^ n) * 2 powi j) = Fin (of_int (k - 60 * 2 ^ n) * 2 powi j)"
    using j by (intro round64_exact) linarith+
  then show ?thesis by (simp only: d)
qed

lemma readout_right:
  assumes "padding s = Fin 60" "0 < q" "binary64 a" "a < 2 ^ 53"
    and "length (fullData s) < 2 ^ 53"
    and "60 + of_nat (length (fullData s)) * q < a"
  shows "readout s (Fin q) (Fin a) = NoPoint"
proof -
  let ?N = "length (fullData s)"
  have "0 \<le> of_nat ?N * q" using assms(2) by simp
  then have a60: "60 < a" using assms(6) by linarith
  have sub: "fsub (Fin a) (Fin 60) = Fin (a - 60)"
    using sub60_exact[OF assms(3) a60 assms(4)] by (simp add: fsub_Fin)
  have "of_nat ?N * q < a - 60" using assms(6) by linarith
  then have "of_nat ?N < (a - 60) / q" using assms(2) by (simp add: pos_less_divide_eq)
  then have "of_nat ?N \<le> (a - 60) / q" by simp
  then have l: "le (Fin (of_nat ?N)) (round64 ((a - 60) / q))"
    using assms(5) by (intro round64_ge round64_of_nat)
  have "fdiv (Fin (a - 60)) (Fin q) = round64 ((a - 60) / q)"
    using a60 assms(2) by (simp add: fdiv_Fin)
  then have di: "dataIndex s (Fin q) (Fin a) = floorNum (round64 ((a - 60) / q))"
    by (simp add: dataIndex_def assms(1) sub)
  from l consider "round64 ((a - 60) / q) = PosInf"
    | "round64 ((a - 60) / q) = NegZero" "?N = 0"
    | v where "round64 ((a - 60) / q) = Fin v" "of_nat ?N \<le> v"
    by (auto simp: le_Fin_left)
  then have "\<not> lt (dataIndex s (Fin q) (Fin a)) (ofNat ?N)"
  proof cases
    case 1 then show ?thesis by (simp add: di ofNat_def)
  next
    case 2 then show ?thesis by (simp add: di ofNat_def)
  next
    case 3
    then have "int ?N \<le> \<lfloor>v\<rfloor>" by (simp add: le_floor_iff)
    then have "(of_nat ?N :: rat) \<le> of_int \<lfloor>v\<rfloor>"
      by (metis of_int_le_iff of_int_of_nat_eq)
    then show ?thesis using 3 by (simp add: di ofNat_def)
  qed
  then show ?thesis by (simp add: readout_def Let_def)
qed


text \<open>
  C8, as the code has it. With a positive finite \<open>xScale\<close> and the pointer at a binary64
  coordinate \<open>x\<close> below \<open>2\<^sup>5\<^sup>3\<close>: when \<open>x < padding\<close>, or when
  \<open>x > padding + N * xScale\<close>, the index \<^verbatim>\<open>Math.floor((x - this.padding) / xScale)\<close>
  is outside \<open>0, \<dots>, N - 1\<close> and no OHLC text is drawn.
\<close>

theorem readout_outside:
  assumes "padding s = Fin 60" "binary64 xs" "0 < xs" "binary64 x" "x < 2 ^ 53"
    and "length (fullData s) < 2 ^ 32"
    and "x < 60 \<or> 60 + of_nat (length (fullData s)) * xs < x"
  shows "readout s (Fin xs) (Fin x) = NoPoint"
proof -
  have "length (fullData s) < 2 ^ 53" using assms(6) by simp
  with assms show ?thesis
    by (auto intro: readout_left readout_right)
qed

theorem readout_outside_witness:
  "padding (chartOf 800 600 (replicate 10 sampleRecord)) = Fin 60
   \<and> xScale (chartOf 800 600 (replicate 10 sampleRecord)) = Fin 68
   \<and> binary64 68 \<and> binary64 59 \<and> binary64 741
   \<and> (60 :: rat) + of_nat (length (fullData (chartOf 800 600 (replicate 10 sampleRecord)))) * 68
         < 741
   \<and> readout (chartOf 800 600 (replicate 10 sampleRecord)) (Fin 68) (Fin 59) = NoPoint
   \<and> readout (chartOf 800 600 (replicate 10 sampleRecord)) (Fin 68) (Fin 741) = NoPoint"
proof -
  let ?s = "chartOf 800 600 (replicate 10 sampleRecord)"
  have p: "padding ?s = Fin 60" by (simp add: chartOf_def newChart_def)
  have n: "length (fullData ?s) = 10" by (simp add: chartOf_def)
  have xs: "xScale ?s = Fin 68"
    by (simp add: xScale_def contentWidth_def chartOf_def newChart_def num_eval)
  have b: "binary64 68" "binary64 59" "binary64 741" by (simp_all add: binary64_numeral)
  have l: "readout ?s (Fin 68) (Fin 59) = NoPoint"
    using readout_outside[OF p b(1) _ b(2)] n by simp
  have r: "readout ?s (Fin 68) (Fin 741) = NoPoint"
    using readout_outside[OF p b(1) _ b(3)] n by simp
  show ?thesis using p xs b l r n by simp
qed

text \<open>
  A canvas 100 wide has the content width \<open>-20\<close>; with ten records \<open>xScale\<close> is \<open>-2\<close>,
  and a pointer at \<open>x = 50\<close>, left of the padding, is over the record at index 5.
\<close>

theorem readout_outside_counterexample:
  "xScale (chartOf 100 600 (replicate 10 sampleRecord)) = Fin (- 2)
   \<and> lt (Fin 50) (padding (chartOf 100 600 (replicate 10 sampleRecord)))
   \<and> dataIndex (chartOf 100 600 (replicate 10 sampleRecord))
        (xScale (chartOf 100 600 (replicate 10 sampleRecord))) (Fin 50) = Fin 5
   \<and> readout (chartOf 100 600 (replicate 10 sampleRecord))
        (xScale (chartOf 100 600 (replicate 10 sampleRecord))) (Fin 50) = Text sampleRecord"
proof -
  let ?s = "chartOf 100 600 (replicate 10 sampleRecord)"
  have p: "padding ?s = Fin 60" by (simp add: chartOf_def newChart_def)
  have fd: "fullData ?s = replicate 10 sampleRecord" by (simp add: chartOf_def)
  have xs: "xScale ?s = Fin (- 2)"
    by (simp add: xScale_def contentWidth_def chartOf_def newChart_def num_eval)
  have di: "dataIndex ?s (Fin (- 2)) (Fin 50) = Fin 5"
    by (simp add: dataIndex_def p num_eval)
  have "readout ?s (Fin (- 2)) (Fin 50) = Text sampleRecord"
    unfolding readout_def di fd by (simp add: ge_def ofNat_def sampleRecord_def)
  then show ?thesis unfolding xs using p di by simp
qed

section \<open>From an index to a pixel and back\<close>

text \<open>
  When the pixel of an index is computed without rounding, the index computed from the
  pixel is the index.
\<close>

lemma roundtrip_exact:
  assumes "padding s = Fin 60" "0 < xs" "i < 2 ^ 53"
    and "fmul (ofNat i) (Fin xs) = Fin (of_nat i * xs)"
    and "fadd (Fin 60) (Fin (of_nat i * xs)) = Fin (60 + of_nat i * xs)"
  shows "dataIndex s (Fin xs) (indexToX s (Fin xs) i) = ofNat i"
proof -
  have x: "indexToX s (Fin xs) i = Fin (60 + of_nat i * xs)"
    by (simp add: indexToX_def assms(1,4,5))
  have sub: "fsub (Fin (60 + of_nat i * xs)) (Fin 60) = round64 (of_nat i * xs)"
    by (simp add: fsub_Fin)
  show ?thesis
  proof (cases "i = 0")
    case True
    then have z: "fsub (Fin (60 + of_nat i * xs)) (Fin 60) = Fin 0"
      by (simp add: fsub_Fin)
    have "fdiv (Fin 0) (Fin xs) = Fin 0"
      using assms(2) by (simp add: fdiv_def isInf_def isZero_def isNeg_def signedZero_def)
    then have "dataIndex s (Fin xs) (indexToX s (Fin xs) i) = Fin 0"
      unfolding dataIndex_def x assms(1) z by simp
    then show ?thesis using True by (simp add: ofNat_def)
  next
    case False
    then have nz: "(of_nat i :: rat) \<noteq> 0" "of_nat i * xs \<noteq> 0" using assms(2) by simp_all
    have "fmul (ofNat i) (Fin xs) = round64 (of_nat i * xs)"
      using nz assms(2) by (simp add: ofNat_def fmul_Fin)
    then have r: "round64 (of_nat i * xs) = Fin (of_nat i * xs)"
      using assms(4) by simp
    have "fdiv (Fin (of_nat i * xs)) (Fin xs) = round64 (of_nat i * xs / xs)"
      using nz assms(2) by (simp add: fdiv_Fin)
    also have "\<dots> = round64 (of_nat i)" using assms(2) by simp
    also have "\<dots> = Fin (of_nat i)" using assms(3) by (rule round64_of_nat)
    finally show ?thesis
      by (simp add: dataIndex_def x assms(1) sub r ofNat_def)
  qed
qed


text \<open>
  With rounding, the index computed from the pixel of index \<open>i\<close> is \<open>i\<close> or \<open>i - 1\<close>:
  the quotient \<^verbatim>\<open>(x - this.padding) / xScale\<close> is within \<open>1 / 2\<close> of \<open>i\<close>.
\<close>

lemma roundtrip_near:
  assumes "padding s = Fin 60" "2 powi (- 32) \<le> q" "of_nat i * q \<le> 2 ^ 32"
    and "0 < i" "i < 2 ^ 32"
  shows "dataIndex s (Fin q) (indexToX s (Fin q) i) = ofNat i
       \<or> dataIndex s (Fin q) (indexToX s (Fin q) i) = ofNat (i - 1)"
proof -
  define p where "p = of_nat i * q"
  have q32: "1 / 2 ^ 32 \<le> q" using assms(2) by simp
  then have q: "0 < q" by (rule less_le_trans[rotated]) simp
  have i1: "(1::rat) \<le> of_nat i" using assms(4) by simp
  have i32: "(of_nat i :: rat) \<le> 2 ^ 32"
  proof -
    have "(of_nat i :: rat) \<le> of_nat (2 ^ 32)" using assms(5) by (simp only: of_nat_le_iff)
    then show ?thesis by simp
  qed
  have "1 * q \<le> of_nat i * q" using i1 q by (intro mult_right_mono) simp_all
  then have qp: "q \<le> p" by (simp only: p_def mult_1)
  then have p_lo: "1 / 2 ^ 32 \<le> p" using q32 by linarith
  have p_hi: "p \<le> 2 ^ 32" using assms(3) by (simp add: p_def)
  have p_q: "p \<le> 2 ^ 32 * q" unfolding p_def using i32 q by (intro mult_right_mono) simp_all
  have "2 powi (- 1022) \<le> p" "p < 2 powi 1023"
  proof -
    have "(2::rat) powi (- 1022) \<le> 2 powi (- 32)" by (simp only: two_powi_le)
    also have "\<dots> \<le> p" using p_lo by simp
    finally show "2 powi (- 1022) \<le> p" .
    have "p < 2 powi 33" using p_hi by simp
    also have "\<dots> \<le> 2 powi 1023" by (simp only: two_powi_le)
    finally show "p < 2 powi 1023" .
  qed
  then obtain a where a: "round64 p = Fin a" "\<bar>a - p\<bar> \<le> p * 2 powi (- 53)" "0 < a"
    by (rule round64_error)
  have "\<bar>a - p\<bar> \<le> p / 2 ^ 53" using a(2) by (simp add: power_int_minus field_simps)
  then have ae: "a - p \<le> p / 9007199254740992" "p - a \<le> p / 9007199254740992"
    by (simp_all only: abs_le_iff minus_diff_eq) simp_all
  have fm: "fmul (ofNat i) (Fin q) = Fin a"
    using assms(4) q a(1) by (simp add: ofNat_def fmul_Fin p_def)
  have "2 powi (- 1022) \<le> 60 + a" "60 + a < 2 powi 1023"
  proof -
    have "(2::rat) powi (- 1022) \<le> 2 powi 0" by (simp only: two_powi_le)
    then show "2 powi (- 1022) \<le> 60 + a" using a(3) by simp
    have "60 + a < 2 ^ 34" using ae p_hi by simp
    then have "60 + a < 2 powi 34" by simp
    also have "\<dots> \<le> 2 powi 1023" by (simp only: two_powi_le)
    finally show "60 + a < 2 powi 1023" .
  qed
  then obtain x where x: "round64 (60 + a) = Fin x"
      "\<bar>x - (60 + a)\<bar> \<le> (60 + a) * 2 powi (- 53)" "0 < x"
    by (rule round64_error)
  have "\<bar>x - (60 + a)\<bar> \<le> (60 + a) / 2 ^ 53"
    using x(2) by (simp add: power_int_minus field_simps)
  then have xe: "x - (60 + a) \<le> (60 + a) / 9007199254740992"
    "(60 + a) - x \<le> (60 + a) / 9007199254740992"
    by (simp_all only: abs_le_iff minus_diff_eq) simp_all
  have xi: "indexToX s (Fin q) i = Fin x"
    by (simp add: indexToX_def assms(1) fm fadd_Fin x(1))
  have bx: "binary64 x" using round64_idem[OF x(1)] by (simp add: binary64_def)
  have p_lo': "1 / 4294967296 \<le> p" using p_lo by simp
  have p_hi': "p \<le> 4294967296" using p_hi by simp
  have x60: "60 < x" using xe ae p_lo' by simp
  have "x < 9007199254740992" using xe ae p_hi' by simp
  then have x53: "x < 2 ^ 53" by simp
  have d: "fsub (Fin x) (Fin 60) = Fin (x - 60)"
    using sub60_exact[OF bx x60 x53] by (simp add: fsub_Fin)
  have r: "fdiv (Fin (x - 60)) (Fin q) = round64 ((x - 60) / q)"
    using x60 q by (simp add: fdiv_Fin)
  have di: "dataIndex s (Fin q) (indexToX s (Fin q) i) = floorNum (round64 ((x - 60) / q))"
    by (simp add: dataIndex_def xi assms(1) d r)
  have p_q': "p \<le> 4294967296 * q" using p_q by simp
  have q32': "1 / 4294967296 \<le> q" using q32 by simp
  have near: "x - 60 - p < q / 2" "p - (x - 60) < q / 2"
    using xe ae p_q' q32' by simp_all
  have lo: "of_nat i - 1 / 2 \<le> (x - 60) / q"
  proof -
    have "(of_nat i - 1 / 2) * q \<le> x - 60" using near(2) by (simp add: p_def algebra_simps)
    then show ?thesis using q by (simp add: pos_le_divide_eq)
  qed
  have hi: "(x - 60) / q \<le> of_nat i + 1 / 2"
  proof -
    have "x - 60 \<le> (of_nat i + 1 / 2) * q" using near(1) by (simp add: p_def algebra_simps)
    then show ?thesis using q by (simp add: pos_divide_le_eq)
  qed
  have ik: "int i < 2 ^ 32" using assms(5) by simp
  have "round64 (of_int (int i - 1) + 1 / 2) = Fin (of_int (int i - 1) + 1 / 2)"
    using ik assms(4) by (intro round64_half_int) simp
  then have e1: "round64 (of_nat i - 1 / 2) = Fin (of_nat i - 1 / 2)" by simp
  have "round64 (of_int (int i) + 1 / 2) = Fin (of_int (int i) + 1 / 2)"
    using ik by (intro round64_half_int) simp
  then have e2: "round64 (of_nat i + 1 / 2) = Fin (of_nat i + 1 / 2)" by simp
  have l1: "le (Fin (of_nat i - 1 / 2)) (round64 ((x - 60) / q))" using lo e1 by (rule round64_ge)
  have l2: "le (round64 ((x - 60) / q)) (Fin (of_nat i + 1 / 2))" using hi e2 by (rule round64_le)
  have "\<not> (of_nat i - 1 / 2 \<le> (0::rat))" using i1 by simp
  with l1 l2 obtain w where w: "round64 ((x - 60) / q) = Fin w"
      "of_nat i - 1 / 2 \<le> w" "w \<le> of_nat i + 1 / 2"
    by (auto simp: le_Fin_left le_Fin_right)
  have "of_int (int i - 1) \<le> w" using w(2) by simp
  then have f1: "int i - 1 \<le> \<lfloor>w\<rfloor>" by (simp only: le_floor_iff)
  have "w < of_int (int i) + 1" using w(3) by simp
  then have f2: "\<lfloor>w\<rfloor> \<le> int i" by (simp only: floor_le_iff)
  from f1 f2 consider "\<lfloor>w\<rfloor> = int i" | "\<lfloor>w\<rfloor> = int i - 1" by linarith
  then show ?thesis
  proof cases
    case 1
    then show ?thesis by (simp add: di w(1) ofNat_def)
  next
    case 2
    then show ?thesis using assms(4) by (simp add: di w(1) ofNat_def of_nat_diff)
  qed
qed

text \<open>
  C2, as the code has it. For an \<open>xScale\<close> of at least \<open>2 powi -32\<close> (an integer content
  width from 1 on, fewer than \<open>2\<^sup>3\<^sup>2\<close> records) and an index \<open>i\<close> whose offset
  \<open>i * xScale\<close> is at most \<open>2\<^sup>3\<^sup>2\<close>, the index computed from the pixel of index \<open>i\<close>
  is \<open>i\<close> or \<open>i - 1\<close>; it is \<open>i\<close> whenever the pixel is computed without rounding, that
  is, whenever \<open>i * xScale\<close> and \<open>padding + i * xScale\<close> are binary64 values.
\<close>

theorem roundtrip_index:
  assumes "padding s = Fin 60" "2 powi (- 32) \<le> xs" "of_nat i * xs \<le> 2 ^ 32" "i < 2 ^ 32"
  shows "(dataIndex s (Fin xs) (indexToX s (Fin xs) i) = ofNat i
          \<or> dataIndex s (Fin xs) (indexToX s (Fin xs) i) = ofNat (i - 1))
       \<and> (fmul (ofNat i) (Fin xs) = Fin (of_nat i * xs)
            \<and> fadd (Fin 60) (Fin (of_nat i * xs)) = Fin (60 + of_nat i * xs)
          \<longrightarrow> dataIndex s (Fin xs) (indexToX s (Fin xs) i) = ofNat i)"
proof -
  have xs: "0 < xs" using assms(2) two_powi_pos[of "- 32"] by linarith
  have i: "i < 2 ^ 53" using assms(4) by simp
  have exact: "dataIndex s (Fin xs) (indexToX s (Fin xs) i) = ofNat i"
    if "fmul (ofNat i) (Fin xs) = Fin (of_nat i * xs)"
      "fadd (Fin 60) (Fin (of_nat i * xs)) = Fin (60 + of_nat i * xs)"
    using assms(1) xs i that by (rule roundtrip_exact)
  show ?thesis
  proof (cases "i = 0")
    case True
    have "fmul (ofNat i) (Fin xs) = Fin (of_nat i * xs)"
      using True xs
      by (simp add: ofNat_def fmul_def isInf_def isZero_def isNeg_def signedZero_def)
    moreover have "fadd (Fin 60) (Fin (of_nat i * xs)) = Fin (60 + of_nat i * xs)"
      using True by (simp add: fadd_Fin round64_numeral)
    ultimately show ?thesis using exact by simp
  next
    case False
    then have "0 < i" by simp
    with assms have "dataIndex s (Fin xs) (indexToX s (Fin xs) i) = ofNat i
       \<or> dataIndex s (Fin xs) (indexToX s (Fin xs) i) = ofNat (i - 1)"
      by (intro roundtrip_near)
    then show ?thesis using exact by blast
  qed
qed

theorem roundtrip_index_witness:
  "padding (chartOf 800 600 (replicate 170 sampleRecord)) = Fin 60
   \<and> xScale (chartOf 800 600 (replicate 170 sampleRecord)) = Fin 4
   \<and> 2 powi (- 32) \<le> (4 :: rat) \<and> of_nat 7 * 4 \<le> (2 ^ 32 :: rat)
   \<and> fmul (ofNat 7) (Fin 4) = Fin (of_nat 7 * 4)
   \<and> fadd (Fin 60) (Fin (of_nat 7 * 4)) = Fin (60 + of_nat 7 * 4)
   \<and> dataIndex (chartOf 800 600 (replicate 170 sampleRecord)) (Fin 4)
        (indexToX (chartOf 800 600 (replicate 170 sampleRecord)) (Fin 4) 7) = ofNat 7"
proof -
  let ?s = "chartOf 800 600 (replicate 170 sampleRecord)"
  have p: "padding ?s = Fin 60" by (simp add: chartOf_def newChart_def)
  have xs: "xScale ?s = Fin 4"
    by (simp add: xScale_def contentWidth_def chartOf_def newChart_def num_eval)
  have m: "fmul (ofNat 7) (Fin 4) = Fin (of_nat 7 * 4)" by (simp add: num_eval)
  have a: "fadd (Fin 60) (Fin (of_nat 7 * 4)) = Fin (60 + of_nat 7 * 4)" by (simp add: num_eval)
  have h: "2 powi (- 32) \<le> (4 :: rat)" "of_nat 7 * 4 \<le> (2 ^ 32 :: rat)" "(7 :: nat) < 2 ^ 32"
    by simp_all
  have "dataIndex ?s (Fin 4) (indexToX ?s (Fin 4) 7) = ofNat 7"
    using roundtrip_index[OF p h] m a by blast
  then show ?thesis using p xs m a h by simp
qed

text \<open>Eleven records on a canvas 800 wide: index 1 maps to a pixel that maps back to 0.\<close>

theorem roundtrip_counterexample:
  "xScale (chartOf 800 600 (replicate 11 sampleRecord)) = Fin (8700135643783913 / 140737488355328)
   \<and> dataIndex (chartOf 800 600 (replicate 11 sampleRecord))
        (xScale (chartOf 800 600 (replicate 11 sampleRecord)))
        (indexToX (chartOf 800 600 (replicate 11 sampleRecord))
           (xScale (chartOf 800 600 (replicate 11 sampleRecord))) 1) = Fin 0
   \<and> ofNat 1 \<noteq> Fin 0"
proof -
  let ?s = "chartOf 800 600 (replicate 11 sampleRecord)"
  have p: "padding ?s = Fin 60" by (simp add: chartOf_def newChart_def)
  have r1: "round64 (680 / 11) = Fin (8700135643783913 / 140737488355328)"
    using round64_eval_pos_rne[of 5 "680 / 11"] by (simp add: rne_def Let_def floor_numeral_div)
  have r1': "round64 (8700135643783913 / 140737488355328) = Fin (8700135643783913 / 140737488355328)"
    using r1 by (rule round64_idem)
  have r2: "round64 (17144384945103593 / 140737488355328) = Fin (2143048118137949 / 17592186044416)"
    using round64_eval_pos_rne[of 6 "17144384945103593 / 140737488355328"] by (simp add: rne_def Let_def floor_numeral_div)
  have r3: "round64 (1087516955472989 / 17592186044416) = Fin (1087516955472989 / 17592186044416)"
    using round64_eval_pos_rne[of 5 "1087516955472989 / 17592186044416"] by (simp add: rne_def Let_def floor_numeral_div)
  have r4: "round64 (8700135643783912 / 8700135643783913) = Fin (9007199254740991 / 9007199254740992)"
    using round64_eval_pos_rne[of "- 1" "8700135643783912 / 8700135643783913"] by (simp add: rne_def Let_def floor_numeral_div)
  have xs: "xScale ?s = Fin (8700135643783913 / 140737488355328)"
    by (simp add: xScale_def contentWidth_def chartOf_def newChart_def num_eval r1)
  have x: "indexToX ?s (Fin (8700135643783913 / 140737488355328)) 1
             = Fin (2143048118137949 / 17592186044416)"
    by (simp add: indexToX_def p num_eval r1' r2)
  have d: "fsub (Fin (2143048118137949 / 17592186044416)) (Fin 60)
             = Fin (1087516955472989 / 17592186044416)"
    by (simp add: fsub_Fin r3)
  have q: "fdiv (Fin (1087516955472989 / 17592186044416)) (Fin (8700135643783913 / 140737488355328))
             = Fin (9007199254740991 / 9007199254740992)"
    by (simp add: fdiv_Fin r4)
  have "dataIndex ?s (Fin (8700135643783913 / 140737488355328))
          (Fin (2143048118137949 / 17592186044416)) = Fin 0"
    by (simp add: dataIndex_def p d q floor_numeral_div)
  then show ?thesis unfolding xs x by (simp add: ofNat_def)
qed


section \<open>From a price to a pixel\<close>

lemma nearest_gt_half:
  assumes "0 < a" "0 < nearest a"
  shows "a < 2 * nearest a"
proof -
  define m where "m = rne (a / ulp a)"
  have n: "nearest a = of_int m * ulp a" by (simp add: nearest_def m_def)
  have "0 < of_int m * ulp a" using assms(2) n by simp
  then have "0 < (of_int m :: rat)" using ulp_pos[of a] by (simp only: zero_less_mult_pos2)
  then have "0 < m" by (simp only: of_int_0_less_iff)
  then have "1 \<le> m" by simp
  then have m1: "(1::rat) \<le> of_int m" by (metis of_int_1 of_int_le_iff)
  have "a / ulp a - 1 / 2 \<le> of_int m" using rne_bounds[of "a / ulp a"] by (simp add: m_def)
  then have "a / ulp a < 2 * of_int m" using m1 by linarith
  then have "a < 2 * of_int m * ulp a" by (simp add: pos_divide_less_eq)
  then show ?thesis by (simp add: n mult.assoc)
qed

lemma le_lt_Fin:
  assumes "le x (Fin c)" "c < a"
  shows "lt x (Fin a)"
  using assms by (cases x) (auto simp: le_def)

lemma round64_half: "round64 (1 / 2) = Fin (1 / 2)"
  using round64_exact[of 1 "- 1"] by simp


text \<open>
  The minimum price is drawn at \<open>height - padding\<close>, the maximum price strictly above it,
  and no price from the minimum upwards below \<open>height - padding\<close>.
\<close>

lemma priceToY_order:
  assumes "padding s = Fin 60" "canvasHeight s = ofNat H" "120 < H" "H < 2 ^ 32"
    and "minPrice s = Fin mn" "maxPrice s = Fin mx" "mn < mx"
    and "yScale s = Fin ys" "0 < ys"
  shows "priceToY s (yScale s) (contentHeight s) (minPrice s) (minPrice s) = Fin (of_nat H - 60)
    \<and> lt (priceToY s (yScale s) (contentHeight s) (minPrice s) (maxPrice s))
         (priceToY s (yScale s) (contentHeight s) (minPrice s) (minPrice s))
    \<and> (\<forall>p. mn \<le> p \<longrightarrow>
          le (priceToY s (yScale s) (contentHeight s) (minPrice s) (Fin p))
             (Fin (of_nat H - 60)))"
proof -
  define h :: rat where "h = of_nat H - 120"
  define A :: rat where "A = of_nat H - 60"
  have h1: "1 \<le> h"
  proof -
    have "121 \<le> H" using assms(3) by simp
    then have "(of_nat 121 :: rat) \<le> of_nat H" by (simp only: of_nat_le_iff)
    then show ?thesis by (simp add: h_def)
  qed
  have Hb: "(of_nat H :: rat) < 2 ^ 32"
  proof -
    have "(of_nat H :: rat) < of_nat (2 ^ 32)" using assms(4) by (simp only: of_nat_less_iff)
    then show ?thesis by simp
  qed
  have iH: "int H < 2 ^ 32" using assms(4) by simp
  have "round64 (of_int (int H - 120)) = Fin (of_int (int H - 120))"
    using iH assms(3) by (intro round64_of_int) simp
  then have rh: "round64 h = Fin h" by (simp add: h_def)
  have "round64 (of_int (int H - 60)) = Fin (of_int (int H - 60))"
    using iH assms(3) by (intro round64_of_int) simp
  then have rA: "round64 A = Fin A" by (simp add: A_def)
  have e: "of_int (2 * int H - 121) * (2::rat) powi (- 1) = A - 1 / 2"
    by (simp add: A_def field_simps)
  have "round64 (of_int (2 * int H - 121) * 2 powi (- 1)) = Fin (of_int (2 * int H - 121) * 2 powi (- 1))"
    using iH assms(3) by (intro round64_exact) simp_all
  then have rA2: "round64 (A - 1 / 2) = Fin (A - 1 / 2)" unfolding e .
  have ch: "contentHeight s = Fin h"
    by (simp add: contentHeight_def assms(1,2) ofNat_def fmul_Fin fsub_Fin round64_numeral
        rh[unfolded h_def] h_def)
  have top: "fadd (padding s) (contentHeight s) = Fin A"
  proof -
    have "60 + h = A" by (simp add: h_def A_def)
    then show ?thesis by (simp add: assms(1) ch fadd_Fin rA)
  qed
  have y: "priceToY s (Fin ys) (Fin h) (Fin mn) p = fsub (Fin A) (fmul (fsub p (Fin mn)) (Fin ys))"
    for p using top by (simp add: priceToY_def ch)
  have ys0: "ys \<noteq> 0" "\<not> ys < 0" using assms(9) by simp_all
  have zero: "fmul (Fin 0) (Fin ys) = Fin 0"
    using ys0 by (simp add: fmul_def isInf_def isZero_def isNeg_def signedZero_def)
  have yA: "fsub (Fin A) (Fin 0) = Fin A" by (simp add: fsub_Fin rA)
  have ymin: "priceToY s (Fin ys) (Fin h) (Fin mn) (Fin mn) = Fin A"
    by (simp add: y fsub_Fin zero rA)
  have below: "le (fsub (Fin A) t) (Fin A)" if "t = PosInf \<or> (\<exists>v. t = Fin v \<and> 0 \<le> v)" for t
  proof -
    from that consider "t = PosInf" | v where "t = Fin v" "0 \<le> v" by blast
    then show ?thesis
    proof cases
      case 1
      then show ?thesis by (simp add: fsub_def fadd_def isInf_def le_def)
    next
      case 2
      have "le (round64 (A - v)) (Fin A)" using 2(2) rA by (intro round64_le) simp_all
      then show ?thesis by (simp add: 2(1) fsub_Fin)
    qed
  qed
  have prod: "fmul w (Fin ys) = PosInf \<or> (\<exists>v. fmul w (Fin ys) = Fin v \<and> 0 \<le> v)"
    if "w = PosInf \<or> (\<exists>v. w = Fin v \<and> 0 \<le> v)" for w
  proof -
    from that consider "w = PosInf" | "w = Fin 0" | v where "w = Fin v" "0 < v" by force
    then show ?thesis
    proof cases
      case 1
      then show ?thesis
        using ys0 by (simp add: fmul_def isInf_def isZero_def isNeg_def signedInf_def)
    next
      case 2
      then show ?thesis by (simp add: zero)
    next
      case 3
      then have "0 < v * ys" using assms(9) by simp
      then show ?thesis
        using 3 ys0 nearest_nonneg[of "v * ys"]
        by (cases "v * ys" rule: round64_pos_cases) (auto simp: fmul_Fin)
    qed
  qed
  have diff: "fsub (Fin p) (Fin mn) = PosInf \<or> (\<exists>v. fsub (Fin p) (Fin mn) = Fin v \<and> 0 \<le> v)"
    if "mn \<le> p" for p
  proof (cases "p = mn")
    case True
    then show ?thesis by (simp add: fsub_Fin)
  next
    case False
    with that have "0 < p - mn" by simp
    then show ?thesis
      using nearest_nonneg[of "p - mn"]
      by (cases "p - mn" rule: round64_pos_cases) (auto simp: fsub_Fin)
  qed
  have upper: "le (priceToY s (Fin ys) (Fin h) (Fin mn) (Fin p)) (Fin A)" if "mn \<le> p" for p
    unfolding y by (intro below prod diff that)
  have strict: "lt (priceToY s (Fin ys) (Fin h) (Fin mn) (Fin mx)) (Fin A)"
  proof -
    have d0: "0 < mx - mn" using assms(7) by simp
    have ysdef: "fdiv (Fin h) (fsub (Fin mx) (Fin mn)) = Fin ys"
      using assms(8) by (simp add: yScale_def ch assms(5,6))
    have hpos: "0 < h" "h \<noteq> 0" "\<not> h < 0" using h1 by simp_all
    from d0 obtain d where d: "fsub (Fin mx) (Fin mn) = Fin d" "0 < d"
    proof (cases "mx - mn" rule: round64_pos_cases)
      case 1
      then have "fdiv (Fin h) (fsub (Fin mx) (Fin mn)) = Fin 0"
        using hpos by (simp add: fsub_Fin fdiv_def isInf_def isNeg_def signedZero_def)
      with ysdef assms(9) show ?thesis by simp
    next
      case 2
      then have "fdiv (Fin h) (fsub (Fin mx) (Fin mn)) = PosInf"
        using hpos by (simp add: fsub_Fin fdiv_def isInf_def isZero_def isNeg_def signedInf_def)
      with ysdef show ?thesis by simp
    next
      case 3
      then show ?thesis using that by (simp add: fsub_Fin)
    qed
    have hd: "0 < h / d" using hpos d(2) by simp
    have rys: "round64 (h / d) = Fin ys"
      using ysdef d hpos by (simp add: fdiv_Fin)
    have "ys = nearest (h / d) \<and> 0 < nearest (h / d)"
      using hd rys assms(9) by (cases "h / d" rule: round64_pos_cases) auto
    then have "h / d < 2 * ys" using nearest_gt_half[OF hd] by simp
    then have "h < 2 * ys * d" using d(2) by (simp add: pos_divide_less_eq)
    then have half: "1 / 2 \<le> d * ys" using h1 by (simp add: mult.commute)
    have "le (Fin (1 / 2)) (round64 (d * ys))"
      using half round64_half by (rule round64_ge)
    moreover have "fmul (Fin d) (Fin ys) = round64 (d * ys)"
      using d(2) ys0 by (simp add: fmul_Fin)
    ultimately consider "fmul (Fin d) (Fin ys) = PosInf"
      | t where "fmul (Fin d) (Fin ys) = Fin t" "1 / 2 \<le> t"
      by (auto simp: le_Fin_left)
    moreover have yx: "priceToY s (Fin ys) (Fin h) (Fin mn) (Fin mx)
        = fsub (Fin A) (fmul (Fin d) (Fin ys))"
      by (simp only: y d(1))
    ultimately show ?thesis
    proof cases
      case 1
      have "fsub (Fin A) PosInf = NegInf" by (simp add: fsub_def fadd_def isInf_def)
      then show ?thesis unfolding yx 1 by simp
    next
      case 2
      have "le (round64 (A - t)) (Fin (A - 1 / 2))"
        using 2(2) rA2 by (intro round64_le) simp_all
      then have "lt (round64 (A - t)) (Fin A)" by (rule le_lt_Fin) simp
      then show ?thesis unfolding yx 2(1) fsub_Fin .
    qed
  qed
  show ?thesis
    unfolding assms(5,6,8) ch using ymin strict upper by (simp add: A_def)
qed

text \<open>The divisor and the scale behind a positive finite yScale.\<close>

lemma yScale_parts:
  assumes "fdiv (Fin h) (fsub (Fin mx) (Fin mn)) = Fin ys" "0 < ys" "0 < h" "mn < mx"
  obtains d where "fsub (Fin mx) (Fin mn) = Fin d" "0 < d" "d < 2 powi 1024"
    "ys = nearest (h / d)"
proof -
  have d0: "0 < mx - mn" using assms(4) by simp
  have hpos: "h \<noteq> 0" "\<not> h < 0" using assms(3) by simp_all
  from d0 obtain d where d: "fsub (Fin mx) (Fin mn) = Fin d" "0 < d" "d < 2 powi 1024"
  proof (cases "mx - mn" rule: round64_pos_cases)
    case 1
    then have "fdiv (Fin h) (fsub (Fin mx) (Fin mn)) = Fin 0"
      using hpos by (simp add: fsub_Fin fdiv_def isInf_def isNeg_def signedZero_def)
    with assms(1,2) show ?thesis by simp
  next
    case 2
    then have "fdiv (Fin h) (fsub (Fin mx) (Fin mn)) = PosInf"
      using hpos by (simp add: fsub_Fin fdiv_def isInf_def isZero_def isNeg_def signedInf_def)
    with assms(1) show ?thesis by simp
  next
    case 3
    then show ?thesis using that by (simp add: fsub_Fin)
  qed
  have hd: "0 < h / d" using assms(3) d(2) by simp
  have rys: "round64 (h / d) = Fin ys"
    using assms(1) d hpos by (simp add: fdiv_Fin)
  have "ys = nearest (h / d)"
    using hd rys assms(2) by (cases "h / d" rule: round64_pos_cases) auto
  with d show ?thesis by (rule that)
qed

lemma scaled_range_le:
  assumes "0 < d" "d < 2 powi 1024" "ys = nearest (h / d)" "1 \<le> h" "h < 2 ^ 32"
  shows "d * ys \<le> h + 1 / 2 ^ 20"
proof -
  have hd: "0 < h / d" using assms(1,4) by simp
  have "\<bar>nearest (h / d) - h / d\<bar> \<le> ulp (h / d) / 2" by (rule nearest_error)
  then have "ys \<le> h / d + ulp (h / d) / 2" using assms(3) by linarith
  also have "\<dots> \<le> h / d + (h / d * 2 powi (- 52) + 2 powi (- 1074)) / 2"
    using ulp_le[OF hd] by simp
  finally have "d * ys \<le> d * (h / d + (h / d * 2 powi (- 52) + 2 powi (- 1074)) / 2)"
    using assms(1) by (intro mult_left_mono) simp_all
  also have "\<dots> = h + h * 2 powi (- 53) + d * 2 powi (- 1075)"
  proof -
    have a: "(2::rat) powi (- 52) / 2 = 2 powi (- 53)"
    proof -
      have "(2::rat) powi (- 53) = 2 powi (- 52 + (- 1))" by simp
      also have "\<dots> = 2 powi (- 52) * 2 powi (- 1)" by (subst power_int_add) simp_all
      finally show ?thesis by simp
    qed
    have b: "(2::rat) powi (- 1074) / 2 = 2 powi (- 1075)"
    proof -
      have "(2::rat) powi (- 1075) = 2 powi (- 1074 + (- 1))" by simp
      also have "\<dots> = 2 powi (- 1074) * 2 powi (- 1)" by (subst power_int_add) simp_all
      finally show ?thesis by simp
    qed
    have "d * (h / d + (h / d * 2 powi (- 52) + 2 powi (- 1074)) / 2)
        = d * (h / d) + d * (h / d) * (2 powi (- 52) / 2) + d * (2 powi (- 1074) / 2)"
      by (simp add: algebra_simps add_divide_distrib)
    also have "d * (h / d) = h" using assms(1) by simp
    finally show ?thesis unfolding a b .
  qed
  also have "\<dots> \<le> h + 1 / 2 ^ 21 + 1 / 2 ^ 51"
  proof -
    have "h * 2 powi (- 53) \<le> 2 ^ 32 * 2 powi (- 53)"
      using assms(5) by (intro mult_right_mono) simp_all
    also have "\<dots> = 2 powi (32 + (- 53))"
      by (subst power_int_add) simp_all
    finally have 1: "h * 2 powi (- 53) \<le> 1 / 2 ^ 21" by (simp add: power_int_minus field_simps)
    have "d * 2 powi (- 1075) \<le> 2 powi 1024 * 2 powi (- 1075)"
      using assms(2) by (intro mult_right_mono) simp_all
    also have "\<dots> = 2 powi (1024 + (- 1075))"
      by (subst power_int_add) simp_all
    finally have 2: "d * 2 powi (- 1075) \<le> 1 / 2 ^ 51" by (simp add: power_int_minus field_simps)
    from 1 2 show ?thesis by linarith
  qed
  also have "\<dots> \<le> h + 1 / 2 ^ 20" by simp
  finally show ?thesis .
qed



lemma priceToY_lower:
  assumes "padding s = Fin 60" "canvasHeight s = ofNat H" "120 < H" "H < 2 ^ 32"
    and "minPrice s = Fin mn" "maxPrice s = Fin mx" "mn < mx"
    and "yScale s = Fin ys" "0 < ys"
    and "mn \<le> p" "p \<le> mx"
  shows "le (Fin (60 - 1 / 2 ^ 16))
           (priceToY s (yScale s) (contentHeight s) (minPrice s) (Fin p))"
proof -
  define h :: rat where "h = of_nat H - 120"
  define A :: rat where "A = of_nat H - 60"
  have h1: "1 \<le> h"
  proof -
    have "121 \<le> H" using assms(3) by simp
    then have "(of_nat 121 :: rat) \<le> of_nat H" by (simp only: of_nat_le_iff)
    then show ?thesis by (simp add: h_def)
  qed
  have iH: "int H < 2 ^ 32" using assms(4) by simp
  have h32: "h < 2 ^ 32"
  proof -
    have "(of_int (int H) :: rat) < of_int (2 ^ 32)" using iH by (simp only: of_int_less_iff)
    then show ?thesis by (simp add: h_def)
  qed
  have "round64 (of_int (int H - 120)) = Fin (of_int (int H - 120))"
    using iH assms(3) by (intro round64_of_int) simp
  then have rh: "round64 h = Fin h" by (simp add: h_def)
  have "round64 (of_int (int H - 60)) = Fin (of_int (int H - 60))"
    using iH assms(3) by (intro round64_of_int) simp
  then have rA: "round64 A = Fin A" by (simp add: A_def)
  have Ah: "A = 60 + h" by (simp add: A_def h_def)
  have ch: "contentHeight s = Fin h"
    by (simp add: contentHeight_def assms(1,2) ofNat_def fmul_Fin fsub_Fin round64_numeral
        rh[unfolded h_def] h_def)
  have top: "fadd (padding s) (contentHeight s) = Fin A"
    by (simp add: assms(1) ch fadd_Fin rA Ah[symmetric])
  have y: "priceToY s (Fin ys) (Fin h) (Fin mn) (Fin p)
      = fsub (Fin A) (fmul (round64 (p - mn)) (Fin ys))"
    using top by (simp add: priceToY_def ch fsub_Fin)
  have ys0: "ys \<noteq> 0" "\<not> ys < 0" using assms(9) by simp_all
  have ysdef: "fdiv (Fin h) (fsub (Fin mx) (Fin mn)) = Fin ys"
    using assms(8) by (simp add: yScale_def ch assms(5,6))
  have hpos: "0 < h" using h1 by simp
  from yScale_parts[OF ysdef assms(9) hpos assms(7)] obtain d where
    d: "fsub (Fin mx) (Fin mn) = Fin d" "0 < d" "d < 2 powi 1024" "ys = nearest (h / d)"
    by blast
  have dy: "d * ys \<le> h + 1 / 2 ^ 20" using d(2,3,4) h1 h32 by (rule scaled_range_le)
  have rd: "round64 (mx - mn) = Fin d" using d(1) by (simp add: fsub_Fin)
  have C: "round64 (60 - 1 / 2 ^ 16) = Fin (60 - 1 / 2 ^ 16)"
    using round64_exact[of "60 * 2 ^ 16 - 1" "- 16"] by simp
  have AC: "60 - 1 / 2 ^ 16 \<le> A" using h1 Ah by simp
  have yA: "le (Fin (60 - 1 / 2 ^ 16)) (fsub (Fin A) (Fin 0))"
    using AC by (simp add: fsub_Fin rA le_def)
  have l1: "le (Fin 0) (round64 (p - mn))"
    using round64_mono[of 0 "p - mn"] assms(10) by simp
  have l2: "le (round64 (p - mn)) (Fin d)"
    using round64_mono[of "p - mn" "mx - mn"] assms(11) rd by simp
  from l1 l2 consider "round64 (p - mn) = NegZero" | "round64 (p - mn) = Fin 0"
    | w where "round64 (p - mn) = Fin w" "0 < w" "w \<le> d"
    by (cases "round64 (p - mn)") (auto simp: le_def not_less order_le_less)
  then have "le (Fin (60 - 1 / 2 ^ 16)) (fsub (Fin A) (fmul (round64 (p - mn)) (Fin ys)))"
  proof cases
    case 1
    have "fmul NegZero (Fin ys) = NegZero"
      using ys0 by (simp add: fmul_def isInf_def isZero_def isNeg_def signedZero_def)
    moreover have "fsub (Fin A) NegZero = fsub (Fin A) (Fin 0)"
      by (simp add: fsub_def fadd_def isInf_def)
    ultimately show ?thesis using yA by (simp add: 1)
  next
    case 2
    have "fmul (Fin 0) (Fin ys) = Fin 0"
      using ys0 by (simp add: fmul_def isInf_def isZero_def isNeg_def signedZero_def)
    then show ?thesis using yA by (simp add: 2)
  next
    case 3
    have wy: "0 < w * ys" using 3(2) assms(9) by simp
    have "w * ys \<le> d * ys" using 3(3) assms(9) by (intro mult_right_mono) simp_all
    then have b: "w * ys \<le> h + 1 / 2 ^ 20" using dy by linarith
    have e: "of_int ((int H - 120) * 2 ^ 20 + 1) * (2::rat) powi (- 20) = h + 1 / 2 ^ 20"
      by (simp add: h_def field_simps)
    have "round64 (of_int ((int H - 120) * 2 ^ 20 + 1) * 2 powi (- 20))
        = Fin (of_int ((int H - 120) * 2 ^ 20 + 1) * 2 powi (- 20))"
      using iH assms(3) by (intro round64_exact) simp_all
    then have B: "round64 (h + 1 / 2 ^ 20) = Fin (h + 1 / 2 ^ 20)" unfolding e .
    have lb: "le (round64 (w * ys)) (Fin (h + 1 / 2 ^ 20))" using b B by (rule round64_le)
    have fm: "fmul (Fin w) (Fin ys) = round64 (w * ys)"
      using 3(2) ys0 by (simp add: fmul_Fin)
    from wy lb obtain t where t: "round64 (w * ys) = Fin t" "0 \<le> t" "t \<le> h + 1 / 2 ^ 20"
      by (cases "w * ys" rule: round64_pos_cases) (auto simp: le_def)
    have "60 - 1 / 2 ^ 16 \<le> A - t" using t(3) Ah by simp
    then have "le (Fin (60 - 1 / 2 ^ 16)) (round64 (A - t))" using C by (rule round64_ge)
    then show ?thesis by (simp add: 3(1) fm t(1) fsub_Fin)
  qed
  then show ?thesis unfolding assms(5,8) ch y .
qed

text \<open>
  C7, as the code has it. For a canvas whose height is an integer above \<open>2 * padding\<close>,
  finite \<open>maxPrice > minPrice\<close> and a positive finite \<open>yScale\<close>: the minimum price is drawn
  at \<open>height - padding\<close>, the maximum price strictly above it (at a smaller y), and every
  price between the two at a y from \<open>padding - 2 powi -16\<close> to \<open>height - padding\<close>. The
  bound \<open>padding\<close> at the top holds only up to rounding.
\<close>

theorem priceToY_range:
  assumes "padding s = Fin 60" "canvasHeight s = ofNat H" "120 < H" "H < 2 ^ 32"
    and "minPrice s = Fin mn" "maxPrice s = Fin mx" "mn < mx"
    and "yScale s = Fin ys" "0 < ys"
  shows "priceToY s (yScale s) (contentHeight s) (minPrice s) (minPrice s) = Fin (of_nat H - 60)
    \<and> lt (priceToY s (yScale s) (contentHeight s) (minPrice s) (maxPrice s))
         (priceToY s (yScale s) (contentHeight s) (minPrice s) (minPrice s))
    \<and> (\<forall>p. mn \<le> p \<and> p \<le> mx \<longrightarrow>
          le (Fin (60 - 1 / 2 ^ 16))
             (priceToY s (yScale s) (contentHeight s) (minPrice s) (Fin p))
        \<and> le (priceToY s (yScale s) (contentHeight s) (minPrice s) (Fin p))
             (Fin (of_nat H - 60)))"
  using priceToY_order[OF assms] priceToY_lower[OF assms] by blast

lemma chart_two_prices:
  "minPrice (chartOf 800 600 (replicate 9 (recordClosing 100) @ [recordClosing 129])) = Fin 100"
  "maxPrice (chartOf 800 600 (replicate 9 (recordClosing 100) @ [recordClosing 129])) = Fin 129"
  by (simp_all add: minPrice_def maxPrice_def mathMin_def mathMax_def chartOf_def
      recordClosing_def eval_nat_numeral)

lemma chart_two_yScale:
  "yScale (chartOf 800 600 (replicate 9 (recordClosing 100) @ [recordClosing 129]))
     = Fin (4658896166245341 / 281474976710656)"
proof -
  have r1: "round64 (480 / 29) = Fin (4658896166245341 / 281474976710656)"
    using round64_eval_pos_rne[of 4 "480 / 29"] by (simp add: rne_def Let_def floor_numeral_div)
  have "contentHeight (chartOf 800 600 (replicate 9 (recordClosing 100) @ [recordClosing 129]))
      = Fin 480"
    by (simp add: contentHeight_def chartOf_def newChart_def num_eval)
  then show ?thesis
    by (simp add: yScale_def chart_two_prices num_eval r1)
qed

theorem priceToY_range_witness:
  "padding (chartOf 800 600 (replicate 9 (recordClosing 100) @ [recordClosing 129])) = Fin 60
   \<and> canvasHeight (chartOf 800 600 (replicate 9 (recordClosing 100) @ [recordClosing 129]))
       = ofNat 600
   \<and> (100 :: rat) \<le> 129
   \<and> priceToY (chartOf 800 600 (replicate 9 (recordClosing 100) @ [recordClosing 129]))
        (yScale (chartOf 800 600 (replicate 9 (recordClosing 100) @ [recordClosing 129])))
        (contentHeight (chartOf 800 600 (replicate 9 (recordClosing 100) @ [recordClosing 129])))
        (minPrice (chartOf 800 600 (replicate 9 (recordClosing 100) @ [recordClosing 129])))
        (minPrice (chartOf 800 600 (replicate 9 (recordClosing 100) @ [recordClosing 129])))
       = Fin 540
   \<and> le (priceToY (chartOf 800 600 (replicate 9 (recordClosing 100) @ [recordClosing 129]))
        (yScale (chartOf 800 600 (replicate 9 (recordClosing 100) @ [recordClosing 129])))
        (contentHeight (chartOf 800 600 (replicate 9 (recordClosing 100) @ [recordClosing 129])))
        (minPrice (chartOf 800 600 (replicate 9 (recordClosing 100) @ [recordClosing 129])))
        (Fin 129))
       (Fin 540)
   \<and> le (Fin (60 - 1 / 2 ^ 16))
       (priceToY (chartOf 800 600 (replicate 9 (recordClosing 100) @ [recordClosing 129]))
        (yScale (chartOf 800 600 (replicate 9 (recordClosing 100) @ [recordClosing 129])))
        (contentHeight (chartOf 800 600 (replicate 9 (recordClosing 100) @ [recordClosing 129])))
        (minPrice (chartOf 800 600 (replicate 9 (recordClosing 100) @ [recordClosing 129])))
        (Fin 129))"
proof -
  let ?s = "chartOf 800 600 (replicate 9 (recordClosing 100) @ [recordClosing 129])"
  have p: "padding ?s = Fin 60" by (simp add: chartOf_def newChart_def)
  have c: "canvasHeight ?s = ofNat 600" by (simp add: chartOf_def newChart_def)
  have "(120::nat) < 600" "(600::nat) < 2 ^ 32" "(100::rat) < 129"
    "(0::rat) < 4658896166245341 / 281474976710656" by simp_all
  from priceToY_range[OF p c this(1,2) chart_two_prices this(3) chart_two_yScale this(4)]
  show ?thesis using p c by simp
qed

text \<open>
  Nine closes of \<open>100\<close> and one of \<open>129\<close> on a canvas 600 high: the maximum price is drawn
  at \<open>59.99999999999994\<close>, above the top edge \<open>padding = 60\<close> of the content area.
\<close>

theorem priceToY_range_counterexample:
  "priceToY (chartOf 800 600 (replicate 9 (recordClosing 100) @ [recordClosing 129]))
     (yScale (chartOf 800 600 (replicate 9 (recordClosing 100) @ [recordClosing 129])))
     (contentHeight (chartOf 800 600 (replicate 9 (recordClosing 100) @ [recordClosing 129])))
     (minPrice (chartOf 800 600 (replicate 9 (recordClosing 100) @ [recordClosing 129])))
     (maxPrice (chartOf 800 600 (replicate 9 (recordClosing 100) @ [recordClosing 129])))
    = Fin (1055531162664959 / 17592186044416)
   \<and> lt (Fin (1055531162664959 / 17592186044416))
        (padding (chartOf 800 600 (replicate 9 (recordClosing 100) @ [recordClosing 129])))"
proof -
  let ?s = "chartOf 800 600 (replicate 9 (recordClosing 100) @ [recordClosing 129])"
  have p: "padding ?s = Fin 60" by (simp add: chartOf_def newChart_def)
  have h: "contentHeight ?s = Fin 480"
    by (simp add: contentHeight_def chartOf_def newChart_def num_eval)
  have r2: "round64 (135107988821114889 / 281474976710656) = Fin (8444249301319681 / 17592186044416)"
    using round64_eval_pos_rne[of 8 "135107988821114889 / 281474976710656"]
    by (simp add: rne_def Let_def floor_numeral_div)
  have r3: "round64 (1055531162664959 / 17592186044416) = Fin (1055531162664959 / 17592186044416)"
    using round64_eval_pos_rne[of 5 "1055531162664959 / 17592186044416"]
    by (simp add: rne_def Let_def floor_numeral_div)
  have "priceToY ?s (Fin (4658896166245341 / 281474976710656)) (Fin 480) (Fin 100) (Fin 129)
      = Fin (1055531162664959 / 17592186044416)"
    by (simp add: priceToY_def p num_eval r2 r3)
  then show ?thesis
    unfolding chart_two_yScale chart_two_prices h by (simp add: p)
qed

section \<open>Zooming in and out\<close>

lemma zoomFactor_eq: "zoomFactor = Fin (2476979795053773 / 2251799813685248)"
  unfolding zoomFactor_def
  using round64_eval_pos_rne[of 0 "11 / 10"] by (simp add: rne_def Let_def floor_numeral_div)

lemma zoomFactor_bounds:
  "(0::rat) < (2476979795053773 / 2251799813685248)" "(11::rat) / 10 \<le> (2476979795053773 / 2251799813685248)"
  "(2476979795053773 / 2251799813685248) * (1 + 1 / 2 ^ 53) \<le> (111::rat) / 100"
  "(10::rat) / 11 - 1 / 2 ^ 52 \<le> 1 / (2476979795053773 / 2251799813685248)" "1 / (2476979795053773 / 2251799813685248) \<le> (10::rat) / 11"
  by simp_all

lemma setCanvasWidth_floor:
  assumes "0 \<le> v" "v < 2 ^ 31"
  shows "setCanvasWidth (Fin v) = ofNat (nat \<lfloor>v\<rfloor>)"
proof -
  have f0: "0 \<le> \<lfloor>v\<rfloor>" using assms(1) by simp
  have "\<lfloor>v\<rfloor> < 2 ^ 31" using assms(2) by (simp add: floor_less_iff)
  then have f1: "\<lfloor>v\<rfloor> \<le> 2147483647" "\<lfloor>v\<rfloor> < 2 ^ 32" by simp_all
  have "toUnsignedLong (Fin v) = \<lfloor>v\<rfloor>"
    using assms(1) f0 f1(2) by (simp add: toUnsignedLong_def)
  then show ?thesis using f0 f1(1) by (simp add: setCanvasWidth_def ofNat_def)
qed

lemma zoom_in_step:
  assumes "of_nat a * (111 / 100) < (2 ^ 31 :: rat)"
  obtains a' where "setCanvasWidth (fmul (ofNat a) zoomFactor) = ofNat a'"
    "(of_nat a' :: rat) \<le> of_nat a * (2476979795053773 / 2251799813685248) * (1 + 1 / 2 ^ 53)"
    "of_nat a * (11 / 10) - 1 - 1 / 2 ^ 21 \<le> (of_nat a' :: rat)"
proof (cases "a = 0")
  case True
  have "fmul (ofNat a) zoomFactor = Fin 0"
    using True
    by (simp add: ofNat_def zoomFactor_eq fmul_def isInf_def isZero_def isNeg_def signedZero_def)
  then have "setCanvasWidth (fmul (ofNat a) zoomFactor) = ofNat 0"
    using setCanvasWidth_floor[of 0] by simp
  then show ?thesis using that[of 0] True by simp
next
  case False
  define c :: rat where "c = 2476979795053773 / 2251799813685248"
  note cb = zoomFactor_bounds[folded c_def]
  define x where "x = of_nat a * c"
  define u :: rat where "u = 1 / 2 ^ 53"
  have u: "0 < u" "2 powi (- 53) = u" by (simp_all add: u_def)
  have a1: "(1::rat) \<le> of_nat a" using False by simp
  have x1: "of_nat a * (11 / 10) \<le> x"
    unfolding x_def using cb(2) by (intro mult_left_mono) simp_all
  then have x2: "1 \<le> x" using a1 by linarith
  have "x * (1 + u) = of_nat a * (c * (1 + 1 / 2 ^ 53))" by (simp add: x_def u_def)
  also have "\<dots> \<le> of_nat a * (111 / 100)" using cb(3) by (intro mult_left_mono) simp_all
  finally have x3: "x * (1 + u) \<le> of_nat a * (111 / 100)" .
  then have x4: "x * (1 + u) < 2 ^ 31" using assms by linarith
  have xu0: "0 \<le> x * u" using x2 u(1) by simp
  have xd: "x * (1 + u) = x + x * u" by (simp add: algebra_simps)
  have x5: "x < 2 ^ 31" using x4 xu0 unfolding xd by linarith
  have "x * u \<le> 2 ^ 31 * u" using x5 u(1) by (intro mult_right_mono) simp_all
  then have xu: "x * u \<le> 1 / 2 ^ 21" by (simp add: u_def)
  have n1: "2 powi (- 1022) \<le> x"
  proof -
    have "(2::rat) powi (- 1022) \<le> 2 powi 0" by (simp only: two_powi_le)
    then show ?thesis using x2 by simp
  qed
  have n2: "x < 2 powi 1023"
  proof -
    have "(2::rat) powi 31 \<le> 2 powi 1023" by (simp only: two_powi_le)
    then have "(2::rat) ^ 31 \<le> 2 powi 1023" by (simp only: power_int_numeral) 
    then show ?thesis using x5 by (rule less_le_trans[rotated])
  qed
  from round64_error[OF n1 n2] obtain v where
    v: "round64 x = Fin v" "\<bar>v - x\<bar> \<le> x * 2 powi (- 53)" "0 < v" by blast
  have ve: "\<bar>v - x\<bar> \<le> x * u" using v(2) unfolding u(2) .
  have vle: "v \<le> x * (1 + u)" using ve unfolding xd by linarith
  then have v31: "v < 2 ^ 31" using x4 by linarith
  have c0: "c \<noteq> 0" using cb(1) by simp
  have "fmul (ofNat a) zoomFactor = round64 x"
    using False c0 by (simp add: ofNat_def zoomFactor_eq fmul_Fin x_def c_def)
  then have s: "setCanvasWidth (fmul (ofNat a) zoomFactor) = ofNat (nat \<lfloor>v\<rfloor>)"
    using v(1,3) v31 setCanvasWidth_floor[of v] by simp
  have fl: "of_nat (nat \<lfloor>v\<rfloor>) = (of_int \<lfloor>v\<rfloor> :: rat)" using v(3) by simp
  have f1: "(of_int \<lfloor>v\<rfloor> :: rat) \<le> v" "v - 1 < of_int \<lfloor>v\<rfloor>" by linarith+
  have "(of_nat (nat \<lfloor>v\<rfloor>) :: rat) \<le> of_nat a * c * (1 + 1 / 2 ^ 53)"
    using f1(1) vle unfolding fl x_def u_def by linarith
  then have r1: "(of_nat (nat \<lfloor>v\<rfloor>) :: rat) \<le> of_nat a * (2476979795053773 / 2251799813685248) * (1 + 1 / 2 ^ 53)"
    unfolding c_def .
  have "x - x * u \<le> v" using ve by linarith
  then have r2: "of_nat a * (11 / 10) - 1 - 1 / 2 ^ 21 \<le> (of_nat (nat \<lfloor>v\<rfloor>) :: rat)"
    unfolding fl using f1(2) x1 xu by linarith
  show ?thesis using that[OF s r1 r2] .
qed

lemma zoom_out_step:
  assumes "b < 2 ^ 31"
  obtains b' where "setCanvasWidth (fdiv (ofNat b) zoomFactor) = ofNat b'"
    "b' \<le> b"
    "of_nat b * (10 / 11) - 1 - 1 / 2 ^ 20 \<le> (of_nat b' :: rat)"
    "\<And>a. a < 2 ^ 31 \<Longrightarrow> (of_nat b :: rat) \<le> of_nat a * (2476979795053773 / 2251799813685248) * (1 + 1 / 2 ^ 53)
        \<Longrightarrow> b' \<le> a"
proof (cases "b = 0")
  case True
  have "fdiv (ofNat b) zoomFactor = Fin 0"
    using True
    by (simp add: ofNat_def zoomFactor_eq fdiv_def isInf_def isZero_def isNeg_def signedZero_def)
  then have "setCanvasWidth (fdiv (ofNat b) zoomFactor) = ofNat 0"
    using setCanvasWidth_floor[of 0] by simp
  then show ?thesis using that[of 0] True by simp
next
  case False
  define c :: rat where "c = 2476979795053773 / 2251799813685248"
  define r :: rat where "r = 1 / c"
  note cb = zoomFactor_bounds[folded c_def, folded r_def]
  define x where "x = of_nat b * r"
  define u :: rat where "u = 1 / 2 ^ 53"
  have u: "0 < u" "2 powi (- 53) = u" "2 ^ 31 * u = 1 / 2 ^ 22" "10 / 11 * (1 + u) \<le> 1"
    by (simp_all add: u_def)
  have c0: "c \<noteq> 0" "0 < c" using cb(1) by simp_all
  have r0: "0 < r" using c0 by (simp add: r_def)
  have cr: "c * r = 1" using c0 by (simp add: r_def)
  have b1: "(1::rat) \<le> of_nat b" using False by simp
  have bb: "(of_nat b :: rat) < 2 ^ 31"
  proof -
    have "(of_nat b :: rat) < of_nat (2 ^ 31)" using assms by (simp only: of_nat_less_iff)
    then show ?thesis by simp
  qed
  have xhi: "x \<le> of_nat b * (10 / 11)"
    unfolding x_def using cb(5) by (intro mult_left_mono) simp_all
  have "of_nat b * (10 / 11 - 1 / 2 ^ 52) \<le> x"
    unfolding x_def using cb(4) by (intro mult_left_mono) simp_all
  then have xlo': "of_nat b * (10 / 11) - of_nat b * (1 / 2 ^ 52) \<le> x"
    by (simp only: right_diff_distrib)
  have "of_nat b * (1 / 2 ^ 52) \<le> 2 ^ 31 * (1 / 2 ^ 52 :: rat)"
    using bb by (intro mult_right_mono) simp_all
  then have bs: "of_nat b * (1 / 2 ^ 52) \<le> (1 / 2 ^ 21 :: rat)" by simp
  have xlo: "of_nat b * (10 / 11) - 1 / 2 ^ 21 \<le> x" using xlo' bs by linarith
  have "(1::rat) * (10 / 11) \<le> of_nat b * (10 / 11)" using b1 by (intro mult_right_mono) simp_all
  then have x12: "1 / 2 \<le> x" using xlo by simp
  have x31: "x < 2 ^ 31" using xhi bb by linarith
  have x0: "0 < x" using x12 by linarith
  have xu0: "0 \<le> x * u" using x0 u(1) by simp
  have "x * u \<le> 2 ^ 31 * u" using x31 u(1) by (intro mult_right_mono) simp_all
  then have xu: "x * u \<le> 1 / 2 ^ 22" unfolding u(3) .
  have n1: "2 powi (- 1022) \<le> x"
  proof -
    have "(2::rat) powi (- 1022) \<le> 2 powi (- 1)" by (simp only: two_powi_le)
    then show ?thesis using x12 by simp
  qed
  have n2: "x < 2 powi 1023"
  proof -
    have "(2::rat) powi 31 \<le> 2 powi 1023" by (simp only: two_powi_le)
    then have "(2::rat) ^ 31 \<le> 2 powi 1023" by (simp only: power_int_numeral)
    then show ?thesis using x31 by (rule less_le_trans[rotated])
  qed
  from round64_error[OF n1 n2] obtain v where
    v: "round64 x = Fin v" "\<bar>v - x\<bar> \<le> x * 2 powi (- 53)" "0 < v" by blast
  have ve: "\<bar>v - x\<bar> \<le> x * u" using v(2) unfolding u(2) .
  have vle: "v \<le> x + x * u" using ve by linarith
  have "x + x * u = x * (1 + u)" by (simp add: algebra_simps)
  also have "\<dots> \<le> of_nat b * (10 / 11) * (1 + u)"
    using xhi u(1) by (intro mult_right_mono) simp_all
  also have "\<dots> = of_nat b * (10 / 11 * (1 + u))" by simp
  also have "\<dots> \<le> of_nat b * 1" using u(4) by (intro mult_left_mono) simp_all
  finally have vb: "v \<le> of_nat b" using vle by simp
  then have v31: "v < 2 ^ 31" using bb by linarith
  have xe: "of_nat b / c = x" by (simp add: x_def r_def)
  have "fdiv (ofNat b) zoomFactor = round64 x"
    using False c0(1) unfolding xe[symmetric]
    by (simp add: ofNat_def zoomFactor_eq fdiv_Fin c_def)
  then have s: "setCanvasWidth (fdiv (ofNat b) zoomFactor) = ofNat (nat \<lfloor>v\<rfloor>)"
    using v(1,3) v31 setCanvasWidth_floor[of v] by simp
  have fl: "of_nat (nat \<lfloor>v\<rfloor>) = (of_int \<lfloor>v\<rfloor> :: rat)" using v(3) by simp
  have f1: "(of_int \<lfloor>v\<rfloor> :: rat) \<le> v" "v - 1 < of_int \<lfloor>v\<rfloor>" by linarith+
  have "\<lfloor>v\<rfloor> \<le> \<lfloor>(of_nat b :: rat)\<rfloor>" using vb by (rule floor_mono)
  then have r1: "nat \<lfloor>v\<rfloor> \<le> b" by simp
  have "x - x * u \<le> v" using ve by linarith
  then have r2: "of_nat b * (10 / 11) - 1 - 1 / 2 ^ 20 \<le> (of_nat (nat \<lfloor>v\<rfloor>) :: rat)"
    unfolding fl using f1(2) xlo xu by simp
  have r3: "nat \<lfloor>v\<rfloor> \<le> a"
    if a: "a < 2 ^ 31" "(of_nat b :: rat) \<le> of_nat a * (2476979795053773 / 2251799813685248) * (1 + 1 / 2 ^ 53)"
    for a
  proof -
    have aa: "(of_nat a :: rat) < 2 ^ 31"
    proof -
      have "(of_nat a :: rat) < of_nat (2 ^ 31)" using a(1) by (simp only: of_nat_less_iff)
      then show ?thesis by simp
    qed
    have "of_nat b \<le> of_nat a * c * (1 + u)" using a(2) by (simp only: c_def u_def)
    then have "of_nat b * r \<le> of_nat a * c * (1 + u) * r"
      using r0 by (intro mult_right_mono) simp_all
    also have "\<dots> = of_nat a * (1 + u) * (c * r)" by simp
    also have "\<dots> = of_nat a + of_nat a * u" by (simp add: cr algebra_simps)
    finally have xa: "x \<le> of_nat a + of_nat a * u" by (simp only: x_def)
    have "of_nat a * u \<le> 2 ^ 31 * u" using aa u(1) by (intro mult_right_mono) simp_all
    then have au: "of_nat a * u \<le> 1 / 2 ^ 22" unfolding u(3) .
    have "v < of_nat a + 1" using vle xa au xu by simp
    then have "v < of_int (int a + 1)" by simp
    then have "\<lfloor>v\<rfloor> < int a + 1" by (simp only: floor_less_iff)
    then show ?thesis by simp
  qed
  show ?thesis using that[OF s r1 r2 r3] by blast
qed

lemma of_nat_less_2_31:
  assumes "(of_nat y :: rat) < 2 ^ 31"
  shows "y < 2 ^ 31"
proof -
  have "(of_nat y :: rat) < of_nat (2 ^ 31)" using assms by simp
  then show ?thesis by (simp only: of_nat_less_iff)
qed

lemma roundtrip_steps:
  assumes "of_nat w * (111 / 100) ^ n < (2 ^ 31 :: rat)"
  shows "\<exists>y. ((\<lambda>x. setCanvasWidth (fmul x zoomFactor)) ^^ n) (ofNat w) = ofNat y
           \<and> (of_nat y :: rat) \<le> of_nat w * (111 / 100) ^ n
           \<and> (\<forall>b. b \<le> y \<and> (of_nat y :: rat) - (21 + 1 / 2 ^ 15) \<le> of_nat b \<longrightarrow>
                 (\<exists>w'. ((\<lambda>x. setCanvasWidth (fdiv x zoomFactor)) ^^ n) (ofNat b) = ofNat w'
                       \<and> w' \<le> w \<and> (of_nat w :: rat) - (21 + 1 / 2 ^ 15) \<le> of_nat w'))"
  using assms
proof (induction n)
  case 0
  show ?case by (intro exI[of _ w]) auto
next
  case (Suc n)
  let ?zin = "\<lambda>x. setCanvasWidth (fmul x zoomFactor)"
  let ?zout = "\<lambda>x. setCanvasWidth (fdiv x zoomFactor)"
  define p :: rat where "p = (111 / 100) ^ n"
  have p: "0 < p" by (simp add: p_def)
  have ps: "(111 / 100) ^ Suc n = p * (111 / 100 :: rat)" by (simp add: p_def)
  have w0: "(0::rat) \<le> of_nat w" by simp
  have "of_nat w * p \<le> of_nat w * (p * (111 / 100))"
    using p w0 by (intro mult_left_mono) simp_all
  then have "of_nat w * p < 2 ^ 31" using Suc.prems unfolding ps by linarith
  then have "of_nat w * (111 / 100) ^ n < (2 ^ 31 :: rat)" by (simp only: p_def)
  from Suc.IH[OF this] obtain y where
    y: "(?zin ^^ n) (ofNat w) = ofNat y"
      "(of_nat y :: rat) \<le> of_nat w * p"
      "\<And>b. b \<le> y \<Longrightarrow> (of_nat y :: rat) - (21 + 1 / 2 ^ 15) \<le> of_nat b \<Longrightarrow>
         \<exists>w'. (?zout ^^ n) (ofNat b) = ofNat w' \<and> w' \<le> w
              \<and> (of_nat w :: rat) - (21 + 1 / 2 ^ 15) \<le> of_nat w'"
    unfolding p_def by blast
  have "of_nat y * (111 / 100) \<le> of_nat w * p * (111 / 100 :: rat)"
    using y(2) by (intro mult_right_mono) simp_all
  then have yb: "(of_nat y :: rat) * (111 / 100) \<le> of_nat w * (111 / 100) ^ Suc n"
    unfolding ps by (simp only: mult.assoc)
  then have y1: "of_nat y * (111 / 100) < (2 ^ 31 :: rat)" using Suc.prems by linarith
  have "(of_nat y :: rat) \<le> of_nat y * (111 / 100)" by simp
  then have "(of_nat y :: rat) < 2 ^ 31" using y1 by linarith
  then have y31: "y < 2 ^ 31" by (rule of_nat_less_2_31)
  from zoom_in_step[OF y1] obtain y' where
    y': "?zin (ofNat y) = ofNat y'"
      "(of_nat y' :: rat) \<le> of_nat y * (2476979795053773 / 2251799813685248) * (1 + 1 / 2 ^ 53)"
      "of_nat y * (11 / 10) - 1 - 1 / 2 ^ 21 \<le> (of_nat y' :: rat)"
    by blast
  have "of_nat y * (2476979795053773 / 2251799813685248) * (1 + 1 / 2 ^ 53)
      = (of_nat y :: rat) * ((2476979795053773 / 2251799813685248) * (1 + 1 / 2 ^ 53))"
    by (simp only: mult.assoc)
  also have "\<dots> \<le> of_nat y * (111 / 100)"
    using zoomFactor_bounds(3) by (intro mult_left_mono) simp_all
  finally have y'b: "(of_nat y' :: rat) \<le> of_nat y * (111 / 100)" using y'(2) by linarith
  have r1: "(?zin ^^ Suc n) (ofNat w) = ofNat y'" by (simp add: y(1) y'(1))
  have r2: "(of_nat y' :: rat) \<le> of_nat w * (111 / 100) ^ Suc n" using y'b yb by linarith
  have "(of_nat y' :: rat) < 2 ^ 31" using y'b y1 by linarith
  then have y'31: "y' < 2 ^ 31" by (rule of_nat_less_2_31)
  have r3: "\<exists>w'. (?zout ^^ Suc n) (ofNat b) = ofNat w' \<and> w' \<le> w
              \<and> (of_nat w :: rat) - (21 + 1 / 2 ^ 15) \<le> of_nat w'"
    if b: "b \<le> y'" "(of_nat y' :: rat) - (21 + 1 / 2 ^ 15) \<le> of_nat b" for b
  proof -
    have b31: "b < 2 ^ 31" using b(1) y'31 by linarith
    have bq: "(of_nat b :: rat) \<le> of_nat y'" using b(1) by simp
    from zoom_out_step[OF b31] obtain b1 where
      b1: "?zout (ofNat b) = ofNat b1"
        "of_nat b * (10 / 11) - 1 - 1 / 2 ^ 20 \<le> (of_nat b1 :: rat)"
        "\<And>a. a < 2 ^ 31 \<Longrightarrow>
           (of_nat b :: rat) \<le> of_nat a * (2476979795053773 / 2251799813685248) * (1 + 1 / 2 ^ 53) \<Longrightarrow> b1 \<le> a"
      by blast
    have "(of_nat b :: rat) \<le> of_nat y * (2476979795053773 / 2251799813685248) * (1 + 1 / 2 ^ 53)"
      using bq y'(2) by linarith
    then have u1: "b1 \<le> y" using y31 by (intro b1(3))
    have "(of_nat y' - (21 + 1 / 2 ^ 15)) * (10 / 11) \<le> (of_nat b :: rat) * (10 / 11)"
      using b(2) by (intro mult_right_mono) simp_all
    moreover have "(of_nat y * (11 / 10) - 1 - 1 / 2 ^ 21) * (10 / 11)
        \<le> (of_nat y' :: rat) * (10 / 11)"
      using y'(3) by (intro mult_right_mono) simp_all
    ultimately have u2: "(of_nat y :: rat) - (21 + 1 / 2 ^ 15) \<le> of_nat b1"
      using b1(2) by (simp add: algebra_simps)
    from y(3)[OF u1 u2] obtain w' where
      "(?zout ^^ n) (ofNat b1) = ofNat w'" "w' \<le> w"
      "(of_nat w :: rat) - (21 + 1 / 2 ^ 15) \<le> of_nat w'" by blast
    moreover have "(?zout ^^ Suc n) (ofNat b) = (?zout ^^ n) (?zout (ofNat b))"
      by (simp only: funpow_Suc_right comp_apply)
    ultimately show ?thesis using b1(1) by auto
  qed
  show ?case using r1 r2 r3 by blast
qed

lemma plotChart_returns:
  assumes "length (fullData s) = 0 \<or> 10 \<le> length (fullData s)"
  shows "\<exists>cmds. plotChart s = Some cmds"
proof -
  obtain labels where
    "drawAxisLabels s (contentHeight s) (maxPrice s) (minPrice s) (contentWidth s) = Some labels"
    using drawAxisLabels_returns[OF assms] by blast
  then show ?thesis by (simp add: plotChart_def Let_def)
qed

lemma wheel_returns:
  assumes "length (fullData s) = 0 \<or> 10 \<le> length (fullData s)"
  shows "wheel d s = Some (s\<lparr>canvasWidth := zoomWidth d (canvasWidth s)\<rparr>)"
proof -
  have "length (fullData (s\<lparr>canvasWidth := zoomWidth d (canvasWidth s)\<rparr>)) = 0
      \<or> 10 \<le> length (fullData (s\<lparr>canvasWidth := zoomWidth d (canvasWidth s)\<rparr>))"
    using assms by simp
  from plotChart_returns[OF this] show ?thesis by (auto simp: wheel_def Let_def)
qed

lemma wheels_width:
  assumes "length (fullData s) = 0 \<or> 10 \<le> length (fullData s)"
  shows "wheels ds s = Some (s\<lparr>canvasWidth := foldl (\<lambda>w d. zoomWidth d w) (canvasWidth s) ds\<rparr>)"
  using assms
proof (induction ds arbitrary: s)
  case Nil
  then show ?case by simp
next
  case (Cons d ds)
  let ?s = "s\<lparr>canvasWidth := zoomWidth d (canvasWidth s)\<rparr>"
  have "length (fullData ?s) = 0 \<or> 10 \<le> length (fullData ?s)" using Cons.prems by simp
  from Cons.IH[OF this] show ?case by (simp add: wheel_returns[OF Cons.prems])
qed

lemma foldl_replicate_funpow: "foldl (\<lambda>w d. f d w) x (replicate n d) = (f d ^^ n) x"
  by (induction n arbitrary: x) (simp_all add: funpow_swap1)

lemma zoomWidth_in: "lt d (Fin 0) \<Longrightarrow> zoomWidth d = (\<lambda>x. setCanvasWidth (fmul x zoomFactor))"
  by (rule ext) (simp add: zoomWidth_def)

lemma zoomWidth_out: "lt (Fin 0) d \<Longrightarrow> zoomWidth d = (\<lambda>x. setCanvasWidth (fdiv x zoomFactor))"
  by (rule ext) (cases d; simp add: zoomWidth_def)

lemma zoom_800:
  "zoomWidth (Fin (- 100)) (Fin 800) = Fin 880"
  "zoomWidth (Fin 100) (Fin 880) = Fin 799"
proof -
  have z1: "round64 (61924494876344325 / 70368744177664) = Fin (7740561859543041 / 8796093022208)"
    using round64_eval_pos_rne[of 9 "61924494876344325 / 70368744177664"]
    by (simp add: rne_def Let_def floor_numeral_div)
  have z2: "round64 (1981583836043018240 / 2476979795053773) = Fin (7036874417766399 / 8796093022208)"
    using round64_eval_pos_rne[of 9 "1981583836043018240 / 2476979795053773"]
    by (simp add: rne_def Let_def floor_numeral_div)
  have m: "fmul (Fin 800) zoomFactor = Fin (7740561859543041 / 8796093022208)"
    by (simp add: zoomFactor_eq fmul_Fin z1)
  have d: "fdiv (Fin 880) zoomFactor = Fin (7036874417766399 / 8796093022208)"
    by (simp add: zoomFactor_eq fdiv_Fin z2)
  have s1: "setCanvasWidth (Fin (7740561859543041 / 8796093022208)) = Fin 880"
    using setCanvasWidth_floor[of "7740561859543041 / 8796093022208"]
    by (simp add: floor_numeral_div ofNat_def)
  have s2: "setCanvasWidth (Fin (7036874417766399 / 8796093022208)) = Fin 799"
    using setCanvasWidth_floor[of "7036874417766399 / 8796093022208"]
    by (simp add: floor_numeral_div ofNat_def)
  show "zoomWidth (Fin (- 100)) (Fin 800) = Fin 880" by (simp add: zoomWidth_def m s1)
  show "zoomWidth (Fin 100) (Fin 880) = Fin 799" by (simp add: zoomWidth_def d s2)
qed

lemma wheels_800:
  "wheels [Fin (- 100), Fin 100] (chartOf 800 600 (replicate 10 sampleRecord))
     = Some ((chartOf 800 600 (replicate 10 sampleRecord))\<lparr>canvasWidth := Fin 799\<rparr>)"
proof -
  let ?s = "chartOf 800 600 (replicate 10 sampleRecord)"
  have n: "length (fullData ?s) = 0 \<or> 10 \<le> length (fullData ?s)" by (simp add: chartOf_def)
  have w: "canvasWidth ?s = Fin 800" by (simp add: chartOf_def newChart_def ofNat_def)
  show ?thesis
    unfolding wheels_width[OF n] by (simp add: w zoom_800)
qed

text \<open>
  C6, as the code has it. The zoom state is the width of the stock canvas, an integer. On a
  chart that \<^verbatim>\<open>plotChart\<close> draws (no record, or ten and more), from the width \<open>w\<close> and
  for \<open>n\<close> with \<open>w * 1.11 ^ n < 2\<^sup>3\<^sup>1\<close>, \<open>n\<close> wheel events with a negative
  \<^verbatim>\<open>deltaY\<close> followed by \<open>n\<close> with a positive one leave a width \<open>w'\<close> with
  \<open>w - 21 \<le> w' \<le> w\<close>: the width does not grow, and it falls by \<open>21\<close> pixels at most.
\<close>

theorem wheel_roundtrip:
  assumes "canvasWidth s = ofNat w" "of_nat w * (111 / 100) ^ n < (2 ^ 31 :: rat)"
    and "length (fullData s) = 0 \<or> 10 \<le> length (fullData s)"
    and "lt dIn (Fin 0)" "lt (Fin 0) dOut"
  shows "\<exists>s' w'. wheels (replicate n dIn @ replicate n dOut) s = Some s'
           \<and> canvasWidth s' = ofNat w' \<and> w \<le> w' + 21 \<and> w' \<le> w"
proof -
  from roundtrip_steps[OF assms(2)] obtain y where
    y: "((\<lambda>x. setCanvasWidth (fmul x zoomFactor)) ^^ n) (ofNat w) = ofNat y"
      "\<And>b. b \<le> y \<Longrightarrow> (of_nat y :: rat) - (21 + 1 / 2 ^ 15) \<le> of_nat b \<Longrightarrow>
         \<exists>w'. ((\<lambda>x. setCanvasWidth (fdiv x zoomFactor)) ^^ n) (ofNat b) = ofNat w'
              \<and> w' \<le> w \<and> (of_nat w :: rat) - (21 + 1 / 2 ^ 15) \<le> of_nat w'"
    by blast
  have "(of_nat y :: rat) - (21 + 1 / 2 ^ 15) \<le> of_nat y" by simp
  from y(2)[OF order_refl this] obtain w' where
    w': "((\<lambda>x. setCanvasWidth (fdiv x zoomFactor)) ^^ n) (ofNat y) = ofNat w'"
      "w' \<le> w" "(of_nat w :: rat) - (21 + 1 / 2 ^ 15) \<le> of_nat w'"
    by blast
  have "(of_nat w :: rat) < of_nat (w' + 22)" using w'(3) by simp
  then have "w < w' + 22" by (simp only: of_nat_less_iff)
  then have d: "w \<le> w' + 21" by simp
  have "foldl (\<lambda>w d. zoomWidth d w) (canvasWidth s) (replicate n dIn @ replicate n dOut)
      = ofNat w'"
    by (simp only: foldl_append foldl_replicate_funpow zoomWidth_in[OF assms(4)]
        zoomWidth_out[OF assms(5)] assms(1) y(1) w'(1))
  then have "wheels (replicate n dIn @ replicate n dOut) s = Some (s\<lparr>canvasWidth := ofNat w'\<rparr>)"
    by (simp only: wheels_width[OF assms(3)])
  then show ?thesis using d w'(2)
    by (intro exI[of _ "s\<lparr>canvasWidth := ofNat w'\<rparr>"] exI[of _ w']) simp
qed

theorem wheel_roundtrip_witness:
  "canvasWidth (chartOf 800 600 (replicate 10 sampleRecord)) = ofNat 800
   \<and> of_nat 800 * (111 / 100) ^ 1 < (2 ^ 31 :: rat)
   \<and> 10 \<le> length (fullData (chartOf 800 600 (replicate 10 sampleRecord)))
   \<and> lt (Fin (- 100)) (Fin 0) \<and> lt (Fin 0) (Fin 100)
   \<and> wheels (replicate 1 (Fin (- 100)) @ replicate 1 (Fin 100))
        (chartOf 800 600 (replicate 10 sampleRecord))
      = Some ((chartOf 800 600 (replicate 10 sampleRecord))\<lparr>canvasWidth := ofNat 799\<rparr>)
   \<and> (800 :: nat) \<le> 799 + 21 \<and> (799 :: nat) \<le> 800"
proof -
  let ?s = "chartOf 800 600 (replicate 10 sampleRecord)"
  have h1: "canvasWidth ?s = ofNat 800" by (simp add: chartOf_def newChart_def)
  have h2: "of_nat 800 * (111 / 100) ^ 1 < (2 ^ 31 :: rat)" by simp
  have h3: "length (fullData ?s) = 0 \<or> 10 \<le> length (fullData ?s)" by (simp add: chartOf_def)
  have h4: "lt (Fin (- 100)) (Fin 0)" "lt (Fin 0) (Fin 100)" by simp_all
  from wheel_roundtrip[OF h1 h2 h3 h4] obtain s' w' where
    r: "wheels (replicate 1 (Fin (- 100)) @ replicate 1 (Fin 100)) ?s = Some s'"
      "canvasWidth s' = ofNat w'" "800 \<le> w' + 21" "w' \<le> 800"
    by blast
  have e: "wheels (replicate 1 (Fin (- 100)) @ replicate 1 (Fin 100)) ?s
      = Some (?s\<lparr>canvasWidth := ofNat 799\<rparr>)"
    using wheels_800 by (simp add: ofNat_def)
  with r(1,2) have "w' = 799" by (auto simp: ofNat_def)
  with r(3,4) e h1 h2 h3 h4 show ?thesis by (simp add: chartOf_def)
qed

text \<open>
  One step in and one step out from the width \<open>800\<close>: \<open>800 * 1.1 = 880.0000000000001\<close> is
  stored as \<open>880\<close>, and \<open>880 / 1.1 = 799.9999999999999\<close> as \<open>799\<close>. The width is off by a
  pixel, more than a thousandth of it.
\<close>

theorem zoom_roundtrip_counterexample:
  "canvasWidth (chartOf 800 600 (replicate 10 sampleRecord)) = Fin 800
   \<and> lt (Fin (- 100)) (Fin 0) \<and> lt (Fin 0) (Fin 100)
   \<and> wheels [Fin (- 100), Fin 100] (chartOf 800 600 (replicate 10 sampleRecord))
      = Some ((chartOf 800 600 (replicate 10 sampleRecord))\<lparr>canvasWidth := Fin 799\<rparr>)
   \<and> (2 powi (- 10) :: rat) < (800 - 799) / 800"
proof -
  have "canvasWidth (chartOf 800 600 (replicate 10 sampleRecord)) = Fin 800"
    by (simp add: chartOf_def newChart_def ofNat_def)
  then show ?thesis using wheels_800 by simp
qed

end
